theory Spec2Isabelle
  imports Main
begin

section \<open>The word emitter of main.go as a transition system\<close>

text \<open>
  The program consists of two goroutines, \<open>main\<close> and \<open>emit\<close>, that share two unbuffered
  channels, \<open>wordChannel\<close> and \<open>doneChannel\<close>. Each goroutine is modelled by its control
  points (one per statement of the source) and its local variables, together with a
  function that says which operation the goroutine performs next at a control point.
  The whole program is the interleaving of the two goroutines: a local statement is a
  step of one goroutine alone, a communication on an unbuffered channel is one joint step
  of the sender and the receiver.

  Go's \<open>int\<close> is a 64-bit machine integer. Both counters of the program stay below 102,
  so no arithmetic of the program can wrap; they are modelled as \<open>int\<close>, and the bounds
  are proved as invariants rather than assumed.
\<close>

subsection \<open>The goroutine \<open>emit\<close> (main.go, lines 5 to 20)\<close>

text \<open>\<open>words := []string{"feed", "the", "monkey"}\<close> (line 7); never assigned again.\<close>

definition words :: "string list" where
  "words = [''feed'', ''the'', ''monkey'']"

text \<open>
  Control points of \<open>emit\<close>: the function entry (lines 6 and 7), the \<open>select\<close> (line 9),
  \<open>i++\<close> (line 11), the test \<open>if i == len(words) { i = 0 }\<close> (lines 12 to 14),
  \<open>close(doneChannel)\<close> (line 16), \<open>return\<close> (line 17), and the returned function.
  The state of \<open>emit\<close> is its control point and the value of its variable \<open>i\<close>.
\<close>

datatype emit_pc = E_entry | E_select | E_incr | E_test | E_close | E_return | E_done

record emit_state =
  epc :: emit_pc
  ei :: int

text \<open>
  What a goroutine does next. A \<open>select\<close> with the two cases of line 10 and line 15
  offers the value of \<open>words[i]\<close> on the word channel, with the state that follows the
  send, and is willing to receive a boolean from the done channel, with the state that
  follows as a function of the received value. The operand \<open>words[i]\<close> is evaluated on
  entering the \<open>select\<close> and panics when the index is out of range.
\<close>

datatype emit_op =
    E_Local emit_state
  | E_PanicIndex
  | E_Select string emit_state "bool \<Rightarrow> emit_state"
  | E_Close emit_state
  | E_Halt

definition emit_init :: emit_state where
  "emit_init = \<lparr>epc = E_entry, ei = 0\<rparr>"

definition emit_op :: "emit_state \<Rightarrow> emit_op" where
  "emit_op p =
     (case epc p of
        E_entry \<Rightarrow> E_Local (p\<lparr>epc := E_select, ei := 0\<rparr>)
      | E_select \<Rightarrow>
          (if 0 \<le> ei p \<and> ei p < int (length words)
           then E_Select (words ! nat (ei p)) (p\<lparr>epc := E_incr\<rparr>) (\<lambda>b. p\<lparr>epc := E_close\<rparr>)
           else E_PanicIndex)
      | E_incr \<Rightarrow> E_Local (p\<lparr>epc := E_test, ei := ei p + 1\<rparr>)
      | E_test \<Rightarrow>
          E_Local (p\<lparr>epc := E_select, ei := (if ei p = int (length words) then 0 else ei p)\<rparr>)
      | E_close \<Rightarrow> E_Close (p\<lparr>epc := E_return\<rparr>)
      | E_return \<Rightarrow> E_Local (p\<lparr>epc := E_done\<rparr>)
      | E_done \<Rightarrow> E_Halt)"

subsection \<open>The goroutine \<open>main\<close> (main.go, lines 21 to 31)\<close>

text \<open>
  Control points of \<open>main\<close>: the entry (the two \<open>make\<close> and the \<open>go\<close> statement, lines 22
  to 25), the three parts of the \<open>for\<close> clause of line 27 (\<open>i := 0\<close>, \<open>i <= 100\<close>, \<open>i++\<close>),
  the receive and the \<open>Println\<close> of line 28, the send of line 30, the return of line 31,
  and the returned function. The state of \<open>main\<close> is its control point, the value of its
  loop variable \<open>i\<close>, and the word it has received at line 28 and not yet printed.
\<close>

datatype main_pc =
  M_entry | M_forinit | M_fortest | M_recv | M_print | M_forpost | M_send | M_return | M_done

record main_state =
  mpc :: main_pc
  mi :: int
  mw :: string

datatype main_op =
    M_Local main_state
  | M_Go main_state
  | M_Recv "string \<Rightarrow> main_state"
  | M_Println string main_state
  | M_Send bool main_state
  | M_Exit main_state
  | M_Halt

definition main_init :: main_state where
  "main_init = \<lparr>mpc = M_entry, mi = 0, mw = []\<rparr>"

definition main_op :: "main_state \<Rightarrow> main_op" where
  "main_op m =
     (case mpc m of
        M_entry \<Rightarrow> M_Go (m\<lparr>mpc := M_forinit\<rparr>)
      | M_forinit \<Rightarrow> M_Local (m\<lparr>mpc := M_fortest, mi := 0\<rparr>)
      | M_fortest \<Rightarrow> M_Local (m\<lparr>mpc := (if mi m \<le> 100 then M_recv else M_send)\<rparr>)
      | M_recv \<Rightarrow> M_Recv (\<lambda>w. m\<lparr>mpc := M_print, mw := w\<rparr>)
      | M_print \<Rightarrow> M_Println (mw m) (m\<lparr>mpc := M_forpost\<rparr>)
      | M_forpost \<Rightarrow> M_Local (m\<lparr>mpc := M_fortest, mi := mi m + 1\<rparr>)
      | M_send \<Rightarrow> M_Send True (m\<lparr>mpc := M_return\<rparr>)
      | M_return \<Rightarrow> M_Exit (m\<lparr>mpc := M_done\<rparr>)
      | M_done \<Rightarrow> M_Halt)"

subsection \<open>The program: both goroutines, the channels and the console\<close>

text \<open>
  \<open>fmt.Println\<close> writes its argument followed by a newline. The console is the string of
  all characters written so far.
\<close>

definition println :: "string \<Rightarrow> string" where
  "println w = w @ [CHR 0x0A]"

datatype status = Running | Exited | Panicked

text \<open>
  The emitter is absent until the \<open>go\<close> statement has run. A Go program exits when
  \<open>main\<close> returns, without waiting for other goroutines, and a panic in any goroutine
  stops the program; in either case no goroutine takes a further step.
\<close>

record state =
  emitter :: "emit_state option"
  mainr :: main_state
  wordClosed :: bool
  doneClosed :: bool
  stdout :: string
  status :: status

definition init :: state where
  "init = \<lparr>emitter = None, mainr = main_init, wordClosed = False, doneClosed = False,
            stdout = [], status = Running\<rparr>"

text \<open>What an observer of the program sees in one step.\<close>

datatype event =
    Local
  | Go
  | WordSent string
  | StopSent bool
  | Printed string
  | Closed
  | ClosedRecvWord
  | ClosedRecvDone
  | Exit
  | Panic

text \<open>
  Steps of \<open>main\<close> alone. A receive from a closed channel returns the zero value at
  once; a send on a closed channel panics. A receive or a send on an open unbuffered
  channel is not a step of one goroutine: it waits for its partner (see \<open>sync_moves\<close>).
\<close>

definition main_moves :: "state \<Rightarrow> (event \<times> state) list" where
  "main_moves s =
     (case main_op (mainr s) of
        M_Local m \<Rightarrow> [(Local, s\<lparr>mainr := m\<rparr>)]
      | M_Go m \<Rightarrow> [(Go, s\<lparr>mainr := m, emitter := Some emit_init\<rparr>)]
      | M_Recv k \<Rightarrow> (if wordClosed s then [(ClosedRecvWord, s\<lparr>mainr := k []\<rparr>)] else [])
      | M_Println w m \<Rightarrow> [(Printed w, s\<lparr>mainr := m, stdout := stdout s @ println w\<rparr>)]
      | M_Send b m \<Rightarrow> (if doneClosed s then [(Panic, s\<lparr>status := Panicked\<rparr>)] else [])
      | M_Exit m \<Rightarrow> [(Exit, s\<lparr>mainr := m, status := Exited\<rparr>)]
      | M_Halt \<Rightarrow> [])"

text \<open>
  Steps of \<open>emit\<close> alone. Closing a closed channel panics. In a \<open>select\<close>, a send case
  on a closed channel can be chosen and panics, and a receive case on a closed channel
  can be chosen and yields the zero value \<open>false\<close>.
\<close>

definition emit_moves :: "state \<Rightarrow> (event \<times> state) list" where
  "emit_moves s =
     (case emitter s of
        None \<Rightarrow> []
      | Some p \<Rightarrow>
          (case emit_op p of
             E_Local p' \<Rightarrow> [(Local, s\<lparr>emitter := Some p'\<rparr>)]
           | E_PanicIndex \<Rightarrow> [(Panic, s\<lparr>status := Panicked\<rparr>)]
           | E_Select w p' k \<Rightarrow>
               (if wordClosed s then [(Panic, s\<lparr>status := Panicked\<rparr>)] else []) @
               (if doneClosed s then [(ClosedRecvDone, s\<lparr>emitter := Some (k False)\<rparr>)] else [])
           | E_Close p' \<Rightarrow>
               (if doneClosed s then [(Panic, s\<lparr>status := Panicked\<rparr>)]
                else [(Closed, s\<lparr>emitter := Some p', doneClosed := True\<rparr>)])
           | E_Halt \<Rightarrow> []))"

text \<open>
  Joint steps on the open unbuffered channels: the send case of the emitter's \<open>select\<close>
  meets the receive of \<open>main\<close> (line 10 with line 28), or the receive case of the
  \<open>select\<close> meets the send of \<open>main\<close> (line 15 with line 30).
\<close>

definition sync_moves :: "state \<Rightarrow> (event \<times> state) list" where
  "sync_moves s =
     (case emitter s of
        None \<Rightarrow> []
      | Some p \<Rightarrow>
          (case emit_op p of
             E_Select w p' k \<Rightarrow>
               (case main_op (mainr s) of
                  M_Recv km \<Rightarrow>
                    (if wordClosed s then []
                     else [(WordSent w, s\<lparr>emitter := Some p', mainr := km w\<rparr>)])
                | M_Send b m \<Rightarrow>
                    (if doneClosed s then []
                     else [(StopSent b, s\<lparr>emitter := Some (k b), mainr := m\<rparr>)])
                | _ \<Rightarrow> [])
           | _ \<Rightarrow> []))"

text \<open>All steps the program can take in a state; which one is taken is up to the scheduler.\<close>

definition succs :: "state \<Rightarrow> (event \<times> state) list" where
  "succs s = (if status s = Running then main_moves s @ emit_moves s @ sync_moves s else [])"

text \<open>\<open>run tr s\<close>: some scheduling of the program produces the events \<open>tr\<close> and leads to \<open>s\<close>.\<close>

inductive run :: "event list \<Rightarrow> state \<Rightarrow> bool" where
  run_init: "run [] init"
| run_step: "run tr s \<Longrightarrow> (e, t) \<in> set (succs s) \<Longrightarrow> run (tr @ [e]) t"

section \<open>Observations and invariants\<close>

text \<open>
  The first \<open>n\<close> elements of the endless repetition of \<open>words\<close>: element \<open>k\<close> is
  \<open>words[k mod len(words)]\<close>.
\<close>

definition cycle :: "nat \<Rightarrow> string list" where
  "cycle n = map (\<lambda>k. words ! (k mod length words)) [0..<n]"

text \<open>
  What an execution shows: the words handed over on the word channel, the words passed to
  \<open>Println\<close>, and the values handed over on the done channel, each in order.
\<close>

fun received :: "event list \<Rightarrow> string list" where
  "received [] = []"
| "received (WordSent w # tr) = w # received tr"
| "received (_ # tr) = received tr"

fun printed :: "event list \<Rightarrow> string list" where
  "printed [] = []"
| "printed (Printed w # tr) = w # printed tr"
| "printed (_ # tr) = printed tr"

fun stops :: "event list \<Rightarrow> bool list" where
  "stops [] = []"
| "stops (StopSent b # tr) = b # stops tr"
| "stops (_ # tr) = stops tr"

text \<open>
  The number of words \<open>main\<close> has received and the number it has printed, read off its
  control point and its counter.
\<close>

definition got :: "main_state \<Rightarrow> nat" where
  "got m = (case mpc m of M_entry \<Rightarrow> 0 | M_forinit \<Rightarrow> 0 | M_print \<Rightarrow> nat (mi m) + 1
            | M_forpost \<Rightarrow> nat (mi m) + 1 | _ \<Rightarrow> nat (mi m))"

definition shown :: "main_state \<Rightarrow> nat" where
  "shown m = (case mpc m of M_entry \<Rightarrow> 0 | M_forinit \<Rightarrow> 0 
            | M_forpost \<Rightarrow> nat (mi m) + 1 | _ \<Rightarrow> nat (mi m))"

text \<open>
  The invariant. For \<open>main\<close>: the bounds of the counter at each control point, and the word
  about to be printed. For the emitter: the index in terms of the number of words handed
  over. For the program: the emitter exists from the \<open>go\<close> statement on; it is past its loop
  exactly when \<open>main\<close> is past its send; the done channel is closed exactly when the
  emitter is past its close; the word channel is open; the program has exited exactly when
  \<open>main\<close> has returned; and the events so far are the cycle up to the current position, at
  most one stop signal, at most one close, and no fault.
\<close>

definition main_inv :: "main_state \<Rightarrow> bool" where
  "main_inv m \<longleftrightarrow> 0 \<le> mi m \<and> mi m \<le> 101 \<and>
     (mpc m \<in> {M_entry, M_forinit} \<longrightarrow> mi m = 0) \<and>
     (mpc m \<in> {M_recv, M_print, M_forpost} \<longrightarrow> mi m \<le> 100) \<and>
     (mpc m \<in> {M_send, M_return, M_done} \<longrightarrow> mi m = 101) \<and>
     (mpc m = M_print \<longrightarrow> mw m = words ! (nat (mi m) mod 3))"

definition emit_inv :: "nat \<Rightarrow> emit_state \<Rightarrow> bool" where
  "emit_inv g p \<longleftrightarrow> 
     (case epc p of
        E_entry \<Rightarrow> g = 0 \<and> ei p = 0
      | E_select \<Rightarrow> ei p = int (g mod 3)
      | E_incr \<Rightarrow> 0 \<le> ei p \<and> ei p < 3 \<and> Suc (nat (ei p)) mod 3 = g mod 3
      | E_test \<Rightarrow> 1 \<le> ei p \<and> ei p \<le> 3 \<and> nat (ei p) mod 3 = g mod 3
      | _ \<Rightarrow> 0 \<le> ei p \<and> ei p < 3)"

definition stopped :: "emit_state \<Rightarrow> bool" where
  "stopped p \<longleftrightarrow> epc p \<in> {E_close, E_return, E_done}"

definition inv :: "event list \<Rightarrow> state \<Rightarrow> bool" where
  "inv tr s \<longleftrightarrow>
     main_inv (mainr s) \<and>
     (case emitter s of
        None \<Rightarrow> mpc (mainr s) = M_entry \<and> \<not> doneClosed s
      | Some p \<Rightarrow> mpc (mainr s) \<noteq> M_entry \<and> emit_inv (got (mainr s)) p \<and>
          (stopped p \<longleftrightarrow> mpc (mainr s) \<in> {M_return, M_done}) \<and>
          (doneClosed s \<longleftrightarrow> epc p \<in> {E_return, E_done})) \<and>
     \<not> wordClosed s \<and>
     status s = (if mpc (mainr s) = M_done then Exited else Running) \<and>
     received tr = cycle (got (mainr s)) \<and>
     printed tr = cycle (shown (mainr s)) \<and>
     stdout s = concat (map println (printed tr)) \<and>
     stops tr = (if mpc (mainr s) \<in> {M_return, M_done} then [True] else []) \<and>
     filter (\<lambda>e. e = Closed) tr = (if doneClosed s then [Closed] else []) \<and>
     Panic \<notin> set tr \<and> ClosedRecvWord \<notin> set tr \<and> ClosedRecvDone \<notin> set tr"


subsection \<open>Two complete executions\<close>

text \<open>
  A state of the program after the \<open>go\<close> statement, with the word channel open, written
  by its components: the emitter's control point and index, the control point, counter
  and received word of \<open>main\<close>, whether the done channel is closed, the console, and the
  status.
\<close>

definition st :: "emit_pc \<Rightarrow> int \<Rightarrow> main_pc \<Rightarrow> int \<Rightarrow> string \<Rightarrow> bool \<Rightarrow> string \<Rightarrow> status \<Rightarrow> state" where
  "st ep i mp j w c out r =
     \<lparr>emitter = Some \<lparr>epc = ep, ei = i\<rparr>, mainr = \<lparr>mpc = mp, mi = j, mw = w\<rparr>,
      wordClosed = False, doneClosed = c, stdout = out, status = r\<rparr>"

text \<open>
  The state at the head of iteration \<open>k\<close> of the loop of \<open>main\<close>, with the emitter waiting at
  its \<open>select\<close>, and the events of one iteration under the scheduling used here: the loop
  test, the hand-over of the word, the emitter's two statements up to its \<open>select\<close>, the
  \<open>Println\<close>, and the increment.
\<close>

definition at_test :: "nat \<Rightarrow> state" where
  "at_test k = st E_select (int (k mod 3)) M_fortest (int k)
     (if k = 0 then [] else words ! ((k - 1) mod 3)) False (concat (map println (cycle k))) Running"

definition round :: "nat \<Rightarrow> event list" where
  "round k = [Local, WordSent (words ! (k mod 3)), Local, Local, Printed (words ! (k mod 3)), Local]"

fun rounds :: "nat \<Rightarrow> event list" where
  "rounds 0 = []"
| "rounds (Suc k) = rounds k @ round k"

text \<open>
  The events up to the first loop test (the \<open>go\<close> statement, \<open>i := 0\<close>, and the emitter's
  entry), the console after 101 words, and the executions up to the send of line 30, up to
  the hand-over of the stop signal, and from there to the end in two ways: \<open>main\<close> returns
  at once, or the emitter closes the channel and returns first.
\<close>

definition start_trace :: "event list" where
  "start_trace = [Go, Local, Local]"

definition all_printed :: string where
  "all_printed = concat (map println (cycle 101))"

definition send_trace :: "event list" where
  "send_trace = start_trace @ rounds 101 @ [Local]"

definition send_state :: state where
  "send_state = st E_select 2 M_send 101 ''the'' False all_printed Running"

definition stop_trace :: "event list" where
  "stop_trace = send_trace @ [StopSent True]"

definition stop_state :: state where
  "stop_state = st E_close 2 M_return 101 ''the'' False all_printed Running"

definition early_exit_trace :: "event list" where
  "early_exit_trace = stop_trace @ [Exit]"

definition early_exit_state :: state where
  "early_exit_state = st E_close 2 M_done 101 ''the'' False all_printed Exited"

definition late_exit_trace :: "event list" where
  "late_exit_trace = stop_trace @ [Closed, Local, Exit]"

definition late_exit_state :: state where
  "late_exit_state = st E_done 2 M_done 101 ''the'' True all_printed Exited"

subsection \<open>A measure of the steps that are left\<close>

text \<open>
  Every step of the program decreases \<open>rank\<close>: it counts the steps \<open>main\<close> has left three
  times, so that a joint step, which advances \<open>main\<close> by one, pays for the at most two local
  steps the emitter takes before it waits again.
\<close>

definition main_left :: "main_state \<Rightarrow> nat" where
  "main_left m =
     (case mpc m of
        M_entry \<Rightarrow> 409
      | M_forinit \<Rightarrow> 408
      | M_fortest \<Rightarrow> 4 * nat (101 - mi m) + 3
      | M_recv \<Rightarrow> 4 * nat (101 - mi m) + 2
      | M_print \<Rightarrow> 4 * nat (101 - mi m) + 1
      | M_forpost \<Rightarrow> 4 * nat (101 - mi m)
      | M_send \<Rightarrow> 2
      | M_return \<Rightarrow> 1
      | M_done \<Rightarrow> 0)"

definition emit_left :: "emit_state \<Rightarrow> nat" where
  "emit_left p =
     (case epc p of
        E_entry \<Rightarrow> 1 | E_select \<Rightarrow> 0 | E_incr \<Rightarrow> 2 | E_test \<Rightarrow> 1
      | E_close \<Rightarrow> 2 | E_return \<Rightarrow> 1 | E_done \<Rightarrow> 0)"

definition rank :: "state \<Rightarrow> nat" where
  "rank s = 3 * main_left (mainr s) + (case emitter s of None \<Rightarrow> 0 | Some p \<Rightarrow> emit_left p)"

subsection \<open>The emitter alone, in any environment\<close>

text \<open>
  The emitter without \<open>main\<close>, for what holds of \<open>emit\<close> whoever its partner is: at its
  \<open>select\<close> the environment may take the offered word, or hand over a stop signal with
  either boolean; the channels are not closed by the environment. A panic ends the
  goroutine: it has no step after it.
\<close>

datatype emit_act = A_Local | A_Send string | A_Stop bool | A_Close

definition emit_acts :: "emit_state \<Rightarrow> (emit_act \<times> emit_state) list" where
  "emit_acts p =
     (case emit_op p of
        E_Local p' \<Rightarrow> [(A_Local, p')]
      | E_PanicIndex \<Rightarrow> []
      | E_Select w p' k \<Rightarrow> [(A_Send w, p'), (A_Stop True, k True), (A_Stop False, k False)]
      | E_Close p' \<Rightarrow> [(A_Close, p')]
      | E_Halt \<Rightarrow> [])"

inductive emit_run :: "emit_act list \<Rightarrow> emit_state \<Rightarrow> bool" where
  emit_run_init: "emit_run [] emit_init"
| emit_run_step: "emit_run as p \<Longrightarrow> (a, q) \<in> set (emit_acts p) \<Longrightarrow> emit_run (as @ [a]) q"

fun is_stop :: "emit_act \<Rightarrow> bool" where
  "is_stop (A_Stop b) = True"
| "is_stop _ = False"

text \<open>
  The invariant of the emitter alone: before a stop signal it is in its loop with the index
  in range, after one it is past the loop.
\<close>

definition solo_inv :: "emit_act list \<Rightarrow> emit_state \<Rightarrow> bool" where
  "solo_inv as p \<longleftrightarrow>
     (case epc p of
        E_entry \<Rightarrow> \<not> list_ex is_stop as
      | E_select \<Rightarrow> \<not> list_ex is_stop as \<and> 0 \<le> ei p \<and> ei p < 3
      | E_incr \<Rightarrow> \<not> list_ex is_stop as \<and> 0 \<le> ei p \<and> ei p < 3
      | E_test \<Rightarrow> \<not> list_ex is_stop as \<and> 1 \<le> ei p \<and> ei p \<le> 3
      | _ \<Rightarrow> list_ex is_stop as)"

subsection \<open>The process and what it is started with\<close>

text \<open>
  The operating system starts the program with an argument vector, environment variables
  and a standard input. \<open>func main()\<close> has no parameter, and main.go imports only \<open>fmt\<close>
  and calls only \<open>fmt.Println\<close>: no statement of it refers to \<open>os.Args\<close>, to the environment
  or to any file. So a step of the process is a step of the program, whatever the process
  was started with, and leaves what it was started with alone. The console takes every
  write: the result of \<open>Println\<close> is discarded at line 28.
\<close>

record environment =
  args :: "string list"
  environ :: "(string \<times> string) list"
  stdin :: string

record process =
  penv :: environment
  prog :: state

definition start :: "environment \<Rightarrow> process" where
  "start env = \<lparr>penv = env, prog = init\<rparr>"

definition process_succs :: "process \<Rightarrow> (event \<times> process) list" where
  "process_succs pr = map (\<lambda>(e, t). (e, pr\<lparr>prog := t\<rparr>)) (succs (prog pr))"

inductive process_run :: "environment \<Rightarrow> event list \<Rightarrow> process \<Rightarrow> bool" for env where
  process_run_start: "process_run env [] (start env)"
| process_run_step:
    "process_run env tr pr \<Longrightarrow> (e, pr') \<in> set (process_succs pr) \<Longrightarrow>
     process_run env (tr @ [e]) pr'"

text \<open>
  The lines of a console text: the pieces that end in a newline, and what follows the last
  newline when it is not empty.
\<close>

fun lines_from :: "string \<Rightarrow> string \<Rightarrow> string list" where
  "lines_from cur [] = (if cur = [] then [] else [cur])"
| "lines_from cur (c # cs) =
     (if c = CHR 0x0A then cur # lines_from [] cs else lines_from (cur @ [c]) cs)"

definition lines_of :: "string \<Rightarrow> string list" where
  "lines_of out = lines_from [] out"

text \<open>Two different ways of starting the process.\<close>

definition plain_env :: environment where
  "plain_env = \<lparr>args = [''gofums''], environ = [], stdin = []\<rparr>"

definition other_env :: environment where
  "other_env = \<lparr>args = [''gofums'', ''7'', ''--quiet''], environ = [(''COUNT'', ''7'')],
                 stdin = ''stop''\<rparr>"

section \<open>The steps of the program, case by case\<close>

text \<open>
  The steps of a state, listed by the control points of the two goroutines. The rule
  \<open>step_cases\<close> is the case analysis used for every invariant below.
\<close>

lemma length_words: "length words = 3" by (simp add: words_def)

lemma main_moves_cases:
  assumes "(e, t) \<in> set (main_moves s)"
  shows 
    "(mpc (mainr s) = M_entry \<and> e = Go \<and>
      t = s\<lparr>mainr := (mainr s)\<lparr>mpc := M_forinit\<rparr>, emitter := Some emit_init\<rparr>)
  \<or> (mpc (mainr s) = M_forinit \<and> e = Local \<and>
      t = s\<lparr>mainr := (mainr s)\<lparr>mpc := M_fortest, mi := 0\<rparr>\<rparr>)
  \<or> (mpc (mainr s) = M_fortest \<and> e = Local \<and>
      t = s\<lparr>mainr := (mainr s)\<lparr>mpc := (if mi (mainr s) \<le> 100 then M_recv else M_send)\<rparr>\<rparr>)
  \<or> (mpc (mainr s) = M_recv \<and> wordClosed s \<and> e = ClosedRecvWord)
  \<or> (mpc (mainr s) = M_print \<and> e = Printed (mw (mainr s)) \<and>
      t = s\<lparr>mainr := (mainr s)\<lparr>mpc := M_forpost\<rparr>, stdout := stdout s @ println (mw (mainr s))\<rparr>)
  \<or> (mpc (mainr s) = M_forpost \<and> e = Local \<and>
      t = s\<lparr>mainr := (mainr s)\<lparr>mpc := M_fortest, mi := mi (mainr s) + 1\<rparr>\<rparr>)
  \<or> (mpc (mainr s) = M_send \<and> doneClosed s \<and> e = Panic)
  \<or> (mpc (mainr s) = M_return \<and> e = Exit \<and>
      t = s\<lparr>mainr := (mainr s)\<lparr>mpc := M_done\<rparr>, status := Exited\<rparr>)"
proof (cases "mpc (mainr s)")
  case M_entry with assms show ?thesis by (simp add: main_moves_def main_op_def)
next
  case M_forinit with assms show ?thesis by (simp add: main_moves_def main_op_def)
next
  case M_fortest with assms show ?thesis by (simp add: main_moves_def main_op_def)
next
  case M_recv with assms show ?thesis by (simp add: main_moves_def main_op_def split: if_splits)
next
  case M_print with assms show ?thesis by (simp add: main_moves_def main_op_def)
next
  case M_forpost with assms show ?thesis by (simp add: main_moves_def main_op_def)
next
  case M_send with assms show ?thesis by (simp add: main_moves_def main_op_def split: if_splits)
next
  case M_return with assms show ?thesis by (simp add: main_moves_def main_op_def)
next
  case M_done with assms show ?thesis by (simp add: main_moves_def main_op_def)
qed

lemma emit_moves_cases:
  assumes "(e, t) \<in> set (emit_moves s)"
  shows "\<exists>p. emitter s = Some p \<and>
   ((epc p = E_entry \<and> e = Local \<and> t = s\<lparr>emitter := Some (p\<lparr>epc := E_select, ei := 0\<rparr>)\<rparr>)
   \<or> (epc p = E_select \<and> \<not> (0 \<le> ei p \<and> ei p < 3) \<and> e = Panic)
   \<or> (epc p = E_select \<and> wordClosed s \<and> e = Panic)
   \<or> (epc p = E_select \<and> doneClosed s \<and> e = ClosedRecvDone)
   \<or> (epc p = E_incr \<and> e = Local \<and> t = s\<lparr>emitter := Some (p\<lparr>epc := E_test, ei := ei p + 1\<rparr>)\<rparr>)
   \<or> (epc p = E_test \<and> e = Local \<and>
        t = s\<lparr>emitter := Some (p\<lparr>epc := E_select, ei := (if ei p = 3 then 0 else ei p)\<rparr>)\<rparr>)
   \<or> (epc p = E_close \<and> doneClosed s \<and> e = Panic)
   \<or> (epc p = E_close \<and> \<not> doneClosed s \<and> e = Closed \<and>
        t = s\<lparr>emitter := Some (p\<lparr>epc := E_return\<rparr>), doneClosed := True\<rparr>)
   \<or> (epc p = E_return \<and> e = Local \<and> t = s\<lparr>emitter := Some (p\<lparr>epc := E_done\<rparr>)\<rparr>))"
proof (cases "emitter s")
  case None
  with assms show ?thesis by (simp add: emit_moves_def)
next
  case (Some p)
  show ?thesis
  proof (cases "epc p")
    case E_entry with assms Some show ?thesis by (simp add: emit_moves_def emit_op_def)
  next
    case E_select with assms Some show ?thesis
      by (cases "0 \<le> ei p \<and> ei p < 3")
         (auto simp: emit_moves_def emit_op_def length_words split: if_splits)
  next
    case E_incr with assms Some show ?thesis by (simp add: emit_moves_def emit_op_def)
  next
    case E_test with assms Some show ?thesis by (simp add: emit_moves_def emit_op_def length_words)
  next
    case E_close with assms Some show ?thesis
      by (simp add: emit_moves_def emit_op_def split: if_splits)
  next
    case E_return with assms Some show ?thesis by (simp add: emit_moves_def emit_op_def)
  next
    case E_done with assms Some show ?thesis by (simp add: emit_moves_def emit_op_def)
  qed
qed

lemma sync_moves_cases:
  assumes "(e, t) \<in> set (sync_moves s)"
  shows "\<exists>p. emitter s = Some p \<and> epc p = E_select \<and> 0 \<le> ei p \<and> ei p < 3 \<and>
    ((mpc (mainr s) = M_recv \<and> \<not> wordClosed s \<and> e = WordSent (words ! nat (ei p)) \<and>
        t = s\<lparr>emitter := Some (p\<lparr>epc := E_incr\<rparr>),
              mainr := (mainr s)\<lparr>mpc := M_print, mw := words ! nat (ei p)\<rparr>\<rparr>)
   \<or> (mpc (mainr s) = M_send \<and> \<not> doneClosed s \<and> e = StopSent True \<and>
        t = s\<lparr>emitter := Some (p\<lparr>epc := E_close\<rparr>), mainr := (mainr s)\<lparr>mpc := M_return\<rparr>\<rparr>))"
proof (cases "emitter s")
  case None
  with assms show ?thesis by (simp add: sync_moves_def)
next
  case (Some p)
  show ?thesis
  proof (cases "epc p = E_select \<and> 0 \<le> ei p \<and> ei p < 3")
    case False
    with assms Some show ?thesis
      by (cases "epc p") (auto simp: sync_moves_def emit_op_def length_words)
  next
    case True
    with assms Some show ?thesis
      by (cases "mpc (mainr s)")
         (simp_all add: sync_moves_def emit_op_def main_op_def length_words split: if_splits)
  qed
qed

lemma step_cases [consumes 1, case_names go forinit fortest recv_closed print forpost send_closed exit
    e_entry e_index e_send_closed e_recv_closed e_incr e_test e_close_closed e_close e_return
    word stop]:
  assumes "(e, t) \<in> set (succs s)"
  obtains
    (go) "status s = Running" "mpc (mainr s) = M_entry" "e = Go"
      "t = s\<lparr>mainr := (mainr s)\<lparr>mpc := M_forinit\<rparr>, emitter := Some emit_init\<rparr>"
  | (forinit) "status s = Running" "mpc (mainr s) = M_forinit" "e = Local"
      "t = s\<lparr>mainr := (mainr s)\<lparr>mpc := M_fortest, mi := 0\<rparr>\<rparr>"
  | (fortest) "status s = Running" "mpc (mainr s) = M_fortest" "e = Local"
      "t = s\<lparr>mainr := (mainr s)\<lparr>mpc := (if mi (mainr s) \<le> 100 then M_recv else M_send)\<rparr>\<rparr>"
  | (recv_closed) "mpc (mainr s) = M_recv" "wordClosed s" "e = ClosedRecvWord"
  | (print) "status s = Running" "mpc (mainr s) = M_print" "e = Printed (mw (mainr s))"
      "t = s\<lparr>mainr := (mainr s)\<lparr>mpc := M_forpost\<rparr>, stdout := stdout s @ println (mw (mainr s))\<rparr>"
  | (forpost) "status s = Running" "mpc (mainr s) = M_forpost" "e = Local"
      "t = s\<lparr>mainr := (mainr s)\<lparr>mpc := M_fortest, mi := mi (mainr s) + 1\<rparr>\<rparr>"
  | (send_closed) "mpc (mainr s) = M_send" "doneClosed s" "e = Panic"
  | (exit) "status s = Running" "mpc (mainr s) = M_return" "e = Exit"
      "t = s\<lparr>mainr := (mainr s)\<lparr>mpc := M_done\<rparr>, status := Exited\<rparr>"
  | (e_entry) p where "status s = Running" "emitter s = Some p" "epc p = E_entry" "e = Local"
      "t = s\<lparr>emitter := Some (p\<lparr>epc := E_select, ei := 0\<rparr>)\<rparr>"
  | (e_index) p where "emitter s = Some p" "epc p = E_select" "\<not> (0 \<le> ei p \<and> ei p < 3)" "e = Panic"
  | (e_send_closed) p where "emitter s = Some p" "epc p = E_select" "wordClosed s" "e = Panic"
  | (e_recv_closed) p where "emitter s = Some p" "epc p = E_select" "doneClosed s"
      "e = ClosedRecvDone"
  | (e_incr) p where "status s = Running" "emitter s = Some p" "epc p = E_incr" "e = Local"
      "t = s\<lparr>emitter := Some (p\<lparr>epc := E_test, ei := ei p + 1\<rparr>)\<rparr>"
  | (e_test) p where "status s = Running" "emitter s = Some p" "epc p = E_test" "e = Local"
      "t = s\<lparr>emitter := Some (p\<lparr>epc := E_select, ei := (if ei p = 3 then 0 else ei p)\<rparr>)\<rparr>"
  | (e_close_closed) p where "emitter s = Some p" "epc p = E_close" "doneClosed s" "e = Panic"
  | (e_close) p where "status s = Running" "emitter s = Some p" "epc p = E_close"
      "\<not> doneClosed s" "e = Closed"
      "t = s\<lparr>emitter := Some (p\<lparr>epc := E_return\<rparr>), doneClosed := True\<rparr>"
  | (e_return) p where "status s = Running" "emitter s = Some p" "epc p = E_return" "e = Local"
      "t = s\<lparr>emitter := Some (p\<lparr>epc := E_done\<rparr>)\<rparr>"
  | (word) p where "status s = Running" "emitter s = Some p" "epc p = E_select"
      "0 \<le> ei p" "ei p < 3" "mpc (mainr s) = M_recv" "\<not> wordClosed s"
      "e = WordSent (words ! nat (ei p))"
      "t = s\<lparr>emitter := Some (p\<lparr>epc := E_incr\<rparr>),
             mainr := (mainr s)\<lparr>mpc := M_print, mw := words ! nat (ei p)\<rparr>\<rparr>"
  | (stop) p where "status s = Running" "emitter s = Some p" "epc p = E_select"
      "0 \<le> ei p" "ei p < 3" "mpc (mainr s) = M_send" "\<not> doneClosed s"
      "e = StopSent True"
      "t = s\<lparr>emitter := Some (p\<lparr>epc := E_close\<rparr>), mainr := (mainr s)\<lparr>mpc := M_return\<rparr>\<rparr>"
proof -
  from assms have R: "status s = Running"
    by (simp add: succs_def split: if_splits)
  with assms consider
      (m) "(e, t) \<in> set (main_moves s)"
    | (p) "(e, t) \<in> set (emit_moves s)"
    | (c) "(e, t) \<in> set (sync_moves s)"
    by (auto simp: succs_def)
  then show thesis
  proof cases
    case m
    from main_moves_cases[OF m] R show thesis
      using go forinit fortest recv_closed print forpost send_closed exit by blast
  next
    case p
    from emit_moves_cases[OF p] R show thesis
      using e_entry e_index e_send_closed e_recv_closed e_incr e_test e_close_closed e_close
        e_return by blast
  next
    case c
    from sync_moves_cases[OF c] R show thesis
      using word stop by blast
  qed
qed

section \<open>The invariant holds in every reachable state\<close>

lemma received_snoc: "received (tr @ [e]) = received tr @ (case e of WordSent w \<Rightarrow> [w] | _ \<Rightarrow> [])"
  by (induction tr rule: received.induct) (simp_all split: event.splits)
lemma printed_snoc: "printed (tr @ [e]) = printed tr @ (case e of Printed w \<Rightarrow> [w] | _ \<Rightarrow> [])"
  by (induction tr rule: printed.induct) (simp_all split: event.splits)
lemma stops_snoc: "stops (tr @ [e]) = stops tr @ (case e of StopSent w \<Rightarrow> [w] | _ \<Rightarrow> [])"
  by (induction tr rule: stops.induct) (simp_all split: event.splits)

lemma cycle_Suc: "cycle (Suc n) = cycle n @ [words ! (n mod 3)]"
  by (simp add: cycle_def length_words)
lemma cycle_0: "cycle 0 = []" by (simp add: cycle_def)

lemma inv_init: "inv [] init"
  by (simp add: inv_def init_def main_inv_def main_init_def got_def shown_def cycle_0)

lemmas inv_defs = inv_def main_inv_def got_def shown_def emit_inv_def emit_init_def stopped_def
          received_snoc printed_snoc stops_snoc cycle_0 cycle_Suc nat_add_distrib

lemmas inv_defs' = inv_def main_inv_def emit_inv_def emit_init_def stopped_def
          received_snoc printed_snoc stops_snoc

lemmas inv_defs'' = inv_def emit_inv_def stopped_def
          received_snoc printed_snoc stops_snoc

lemma test_arith:
  fixes i :: int
  assumes "1 \<le> i" "i \<le> 3" "nat i mod 3 = g mod 3"
  shows "(i = 3 \<longrightarrow> g mod 3 = 0) \<and> (i \<noteq> 3 \<longrightarrow> i = int (g mod 3))"
proof -
  from assms(1,2) consider "i = 1" | "i = 2" | "i = 3" by linarith
  then show ?thesis using assms(3) by cases auto
qed

lemma inv_step:
  assumes I: "inv tr s" and st: "(e, t) \<in> set (succs s)"
  shows "inv (tr @ [e]) t"
  using st
proof (cases rule: step_cases)
  case go with I show ?thesis by (simp add: inv_defs split: option.splits)
next
  case forinit with I show ?thesis by (simp add: inv_defs split: option.splits)
next
  case fortest with I show ?thesis by (simp add: inv_defs split: option.splits)
next
  case recv_closed with I show ?thesis by (simp add: inv_defs split: option.splits)
next
  case print with I show ?thesis by (simp add: inv_defs split: option.splits)
next
  case forpost with I show ?thesis by (simp add: inv_defs split: option.splits)
next
  case send_closed with I show ?thesis by (simp add: inv_defs split: option.splits)
next
  case exit with I show ?thesis by (auto simp: inv_defs split: option.splits)
next
  case (e_entry p) with I show ?thesis by (simp add: inv_defs'')
next
  case (e_index p) with I show ?thesis by (simp add: inv_defs'')
next
  case (e_send_closed p) with I show ?thesis by (simp add: inv_defs'')
next
  case (e_recv_closed p) with I show ?thesis by (simp add: inv_defs'')
next
  case (e_incr p) with I show ?thesis by (simp add: inv_defs'' nat_add_distrib)
next
  case (e_test p) with I show ?thesis using test_arith[of "ei p" "got (mainr s)"] by (simp add: inv_defs'')
next
  case (e_close_closed p) with I show ?thesis by (simp add: inv_defs'')
next
  case (e_close p) with I show ?thesis by (simp add: inv_defs'')
next
  case (e_return p) with I show ?thesis by (simp add: inv_defs'')
next
  case (word p) with I show ?thesis by (simp add: inv_defs mod_Suc_eq)
next
  case (stop p) with I show ?thesis by (simp add: inv_defs)
qed

lemma run_inv: "run tr s \<Longrightarrow> inv tr s"
  by (induction rule: run.induct) (simp_all add: inv_init inv_step)

lemma inv_emitterD:
  assumes "inv tr s" "emitter s = Some p"
  shows "emit_inv (got (mainr s)) p"
    and "stopped p \<longleftrightarrow> mpc (mainr s) \<in> {M_return, M_done}"
    and "doneClosed s \<longleftrightarrow> epc p \<in> {E_return, E_done}"
    and "mpc (mainr s) \<noteq> M_entry"
  using assms by (simp_all add: inv_def)

lemma inv_select_index:
  assumes "inv tr s" "emitter s = Some p" "epc p = E_select"
  shows "ei p = int (got (mainr s) mod 3)"
  using inv_emitterD(1)[OF assms(1,2)] assms(3) by (simp add: emit_inv_def)

lemma inv_status:
  assumes "inv tr s"
  shows "status s = (if mpc (mainr s) = M_done then Exited else Running)"
  using assms by (simp add: inv_def)

lemma inv_quiet:
  assumes "inv tr s"
  shows "Panic \<notin> set tr" "ClosedRecvWord \<notin> set tr" "ClosedRecvDone \<notin> set tr"
    "\<not> wordClosed s" "filter (\<lambda>e. e = Closed) tr = (if doneClosed s then [Closed] else [])"
  using assms by (simp_all add: inv_def)

section \<open>Concrete executions\<close>

text \<open>
  Each step of the program as a fact about explicit states, and from these the two
  complete executions: the loop of \<open>main\<close> by induction on the number of iterations.
\<close>

lemmas succs_defs = succs_def main_moves_def emit_moves_def sync_moves_def main_op_def emit_op_def
  length_words

lemma step_go: "(Go, st E_entry 0 M_forinit 0 [] False [] Running) \<in> set (succs init)"
  by (simp add: st_def init_def main_init_def emit_init_def succs_defs)

lemma step_forinit:
  "(Local, st ep i M_fortest 0 w c out Running) \<in> set (succs (st ep i M_forinit j w c out Running))"
  by (simp add: st_def succs_defs)

lemma step_fortest:
  "(Local, st ep i (if j \<le> 100 then M_recv else M_send) j w c out Running)
     \<in> set (succs (st ep i M_fortest j w c out Running))"
  by (simp add: st_def succs_defs)

lemma step_print:
  "(Printed w, st ep i M_forpost j w c (out @ println w) Running)
     \<in> set (succs (st ep i M_print j w c out Running))"
  by (simp add: st_def succs_defs)

lemma step_forpost:
  "(Local, st ep i M_fortest (j + 1) w c out Running)
     \<in> set (succs (st ep i M_forpost j w c out Running))"
  by (simp add: st_def succs_defs)

lemma step_exit:
  "(Exit, st ep i M_done j w c out Exited) \<in> set (succs (st ep i M_return j w c out Running))"
  by (simp add: st_def succs_defs)

lemma step_e_entry:
  "(Local, st E_select 0 mp j w c out Running) \<in> set (succs (st E_entry i mp j w c out Running))"
  by (simp add: st_def succs_defs)

lemma step_e_incr:
  "(Local, st E_test (i + 1) mp j w c out Running) \<in> set (succs (st E_incr i mp j w c out Running))"
  by (simp add: st_def succs_defs)

lemma step_e_test:
  "(Local, st E_select (if i = 3 then 0 else i) mp j w c out Running)
     \<in> set (succs (st E_test i mp j w c out Running))"
  by (simp add: st_def succs_defs)

lemma step_e_close:
  "(Closed, st E_return i mp j w True out Running)
     \<in> set (succs (st E_close i mp j w False out Running))"
  by (simp add: st_def succs_defs)

lemma step_e_return:
  "(Local, st E_done i mp j w c out Running) \<in> set (succs (st E_return i mp j w c out Running))"
  by (simp add: st_def succs_defs)

lemma step_word:
  "0 \<le> i \<Longrightarrow> i < 3 \<Longrightarrow>
   (WordSent (words ! nat i), st E_incr i M_print j (words ! nat i) c out Running)
     \<in> set (succs (st E_select i M_recv j w c out Running))"
  by (simp add: st_def succs_defs)

lemma step_stop:
  "0 \<le> i \<Longrightarrow> i < 3 \<Longrightarrow>
   (StopSent True, st E_close i M_return j w False out Running)
     \<in> set (succs (st E_select i M_send j w False out Running))"
  by (simp add: st_def succs_defs)

lemma run_start: "run start_trace (at_test 0)"
proof -
  have "run ([] @ [Go]) (st E_entry 0 M_forinit 0 [] False [] Running)"
    using run_init step_go by (rule run_step)
  then have "run (([] @ [Go]) @ [Local]) (st E_entry 0 M_fortest 0 [] False [] Running)"
    using step_forinit by (rule run_step)
  then have "run ((([] @ [Go]) @ [Local]) @ [Local]) (st E_select 0 M_fortest 0 [] False [] Running)"
    using step_e_entry by (rule run_step)
  then show ?thesis by (simp add: start_trace_def at_test_def cycle_0)
qed

lemma wrap_index: "(if int (k mod 3) + 1 = 3 then 0 else int (k mod 3) + 1) = int (Suc k mod 3)"
  by (simp add: mod_Suc)

lemma run_round:
  assumes r: "run tr (at_test k)" and k: "k \<le> 100"
  shows "run (tr @ round k) (at_test (Suc k))"
proof -
  let ?i = "int (k mod 3)" and ?v = "if k = 0 then [] else words ! ((k - 1) mod 3)"
  let ?w = "words ! (k mod 3)" and ?out = "concat (map println (cycle k))"
  have i: "0 \<le> ?i" "?i < 3" "words ! nat ?i = ?w" by simp_all
  from r have "run tr (st E_select ?i M_fortest (int k) ?v False ?out Running)"
    by (simp add: at_test_def)
  then have "run (tr @ [Local]) (st E_select ?i (if int k \<le> 100 then M_recv else M_send) (int k) ?v False ?out Running)"
    using step_fortest by (rule run_step)
  with k have "run (tr @ [Local]) (st E_select ?i M_recv (int k) ?v False ?out Running)"
    by simp
  then have "run ((tr @ [Local]) @ [WordSent (words ! nat ?i)])
      (st E_incr ?i M_print (int k) (words ! nat ?i) False ?out Running)"
    using step_word[OF i(1,2)] by (rule run_step)
  then have "run (tr @ [Local, WordSent ?w]) (st E_incr ?i M_print (int k) ?w False ?out Running)"
    by (simp only: i(3) append_assoc append_Cons append_Nil)
  then have "run ((tr @ [Local, WordSent ?w]) @ [Local])
      (st E_test (?i + 1) M_print (int k) ?w False ?out Running)"
    using step_e_incr by (rule run_step)
  then have "run (((tr @ [Local, WordSent ?w]) @ [Local]) @ [Local])
      (st E_select (if ?i + 1 = 3 then 0 else ?i + 1) M_print (int k) ?w False ?out Running)"
    using step_e_test by (rule run_step)
  then have "run ((((tr @ [Local, WordSent ?w]) @ [Local]) @ [Local]) @ [Printed ?w])
      (st E_select (if ?i + 1 = 3 then 0 else ?i + 1) M_forpost (int k) ?w False
         (?out @ println ?w) Running)"
    using step_print by (rule run_step)
  then have "run (((((tr @ [Local, WordSent ?w]) @ [Local]) @ [Local]) @ [Printed ?w]) @ [Local])
      (st E_select (if ?i + 1 = 3 then 0 else ?i + 1) M_fortest (int k + 1) ?w False
         (?out @ println ?w) Running)"
    using step_forpost by (rule run_step)
  moreover have "int k + 1 = int (Suc k)" by simp
  moreover have "?out @ println ?w = concat (map println (cycle (Suc k)))"
    by (simp add: cycle_Suc)
  ultimately show ?thesis
    by (simp only: wrap_index round_def at_test_def append_assoc append_Cons append_Nil
        nat.simps if_False diff_Suc_1)
qed

lemma run_rounds: "k \<le> 101 \<Longrightarrow> run (start_trace @ rounds k) (at_test k)"
proof (induction k)
  case 0
  then show ?case using run_start by simp
next
  case (Suc k)
  then have "run ((start_trace @ rounds k) @ round k) (at_test (Suc k))"
    by (intro run_round) simp_all
  then show ?case by simp
qed

lemma at_test_101: "at_test 101 = st E_select 2 M_fortest 101 ''the'' False all_printed Running"
  by (simp add: at_test_def all_printed_def words_def)

lemma run_send: "run send_trace send_state"
proof -
  have "run (start_trace @ rounds 101) (st E_select 2 M_fortest 101 ''the'' False all_printed Running)"
    using run_rounds[of 101] by (simp add: at_test_101)
  then have "run ((start_trace @ rounds 101) @ [Local])
     (st E_select 2 (if (101::int) \<le> 100 then M_recv else M_send) 101 ''the'' False all_printed Running)"
    using step_fortest by (rule run_step)
  then show ?thesis by (simp add: send_trace_def send_state_def)
qed

lemma run_stop: "run stop_trace stop_state"
proof -
  have "(StopSent True, stop_state) \<in> set (succs send_state)"
    unfolding stop_state_def send_state_def by (rule step_stop) simp_all
  with run_send show ?thesis unfolding stop_trace_def by (rule run_step)
qed

lemma run_early_exit: "run early_exit_trace early_exit_state"
proof -
  have "(Exit, early_exit_state) \<in> set (succs stop_state)"
    unfolding stop_state_def early_exit_state_def by (rule step_exit)
  with run_stop show ?thesis unfolding early_exit_trace_def by (rule run_step)
qed

lemma run_late_exit: "run late_exit_trace late_exit_state"
proof -
  have "run (stop_trace @ [Closed]) (st E_return 2 M_return 101 ''the'' True all_printed Running)"
    using run_stop step_e_close unfolding stop_state_def by (rule run_step)
  then have "run ((stop_trace @ [Closed]) @ [Local])
      (st E_done 2 M_return 101 ''the'' True all_printed Running)"
    using step_e_return by (rule run_step)
  then have "run (((stop_trace @ [Closed]) @ [Local]) @ [Exit])
      (st E_done 2 M_done 101 ''the'' True all_printed Exited)"
    using step_exit by (rule run_step)
  then show ?thesis by (simp add: late_exit_trace_def late_exit_state_def)
qed

lemma run_snocD:
  assumes "run (tr @ [e]) t"
  shows "\<exists>s. run tr s \<and> (e, t) \<in> set (succs s)"
  using assms by (cases rule: run.cases) auto

lemma run_appendD: "run (xs @ ys) t \<Longrightarrow> \<exists>s. run xs s"
proof (induction ys arbitrary: t rule: rev_induct)
  case Nil
  then show ?case by auto
next
  case (snoc y ys)
  from snoc.prems have "run ((xs @ ys) @ [y]) t" by simp
  then obtain s where "run (xs @ ys) s" using run_snocD by blast
  then show ?case by (rule snoc.IH)
qed

lemma inv_no_fault:
  assumes "inv tr s" "(e, t) \<in> set (succs s)"
  shows "e \<noteq> Panic" "e \<noteq> ClosedRecvWord" "e \<noteq> ClosedRecvDone"
  using inv_quiet(1-3)[OF inv_step[OF assms]] by auto

lemmas rank_defs = rank_def main_left_def emit_left_def emit_init_def

lemma rank_step:
  assumes I: "inv tr s" and st: "(e, t) \<in> set (succs s)"
  shows "rank t < rank s"
  using st
proof (cases rule: step_cases)
  case go with I show ?thesis by (simp add: rank_defs inv_def split: option.splits)
next
  case forinit then show ?thesis by (simp add: rank_defs)
next
  case fortest then show ?thesis by (simp add: rank_defs)
next
  case recv_closed with inv_no_fault[OF I st] show ?thesis by simp
next
  case print then show ?thesis by (simp add: rank_defs)
next
  case forpost
  from I forpost(2) have "mi (mainr s) \<le> 100" by (simp add: inv_def main_inv_def)
  then have "nat (101 - mi (mainr s)) = Suc (nat (100 - mi (mainr s)))" by simp
  with forpost show ?thesis by (simp add: rank_defs)
next
  case send_closed with inv_no_fault[OF I st] show ?thesis by simp
next
  case exit then show ?thesis by (simp add: rank_defs)
next
  case (e_entry p) then show ?thesis by (simp add: rank_defs)
next
  case (e_index p) with inv_no_fault[OF I st] show ?thesis by simp
next
  case (e_send_closed p) with inv_no_fault[OF I st] show ?thesis by simp
next
  case (e_recv_closed p) with inv_no_fault[OF I st] show ?thesis by simp
next
  case (e_incr p) then show ?thesis by (simp add: rank_defs)
next
  case (e_test p) then show ?thesis by (simp add: rank_defs)
next
  case (e_close_closed p) with inv_no_fault[OF I st] show ?thesis by simp
next
  case (e_close p) then show ?thesis by (simp add: rank_defs)
next
  case (e_return p) then show ?thesis by (simp add: rank_defs)
next
  case (word p) then show ?thesis by (simp add: rank_defs)
next
  case (stop p) then show ?thesis by (simp add: rank_defs)
qed

lemma rank_init: "rank init = 1227"
  by (simp add: rank_defs init_def main_init_def)

lemma run_bound: "run tr s \<Longrightarrow> length tr + rank s \<le> 1227"
proof (induction rule: run.induct)
  case run_init
  then show ?case by (simp add: rank_init)
next
  case (run_step tr s e t)
  from run_step.hyps(1) have "inv tr s" by (rule run_inv)
  then have "rank t < rank s" using run_step.hyps(2) by (rule rank_step)
  with run_step.IH show ?case by simp
qed

lemma main_moves_nonempty:
  assumes "mpc (mainr s) \<notin> {M_recv, M_send, M_done}"
  shows "main_moves s \<noteq> []"
  using assms by (cases "mpc (mainr s)") (simp_all add: main_moves_def main_op_def)

lemma emit_moves_nonempty:
  assumes "emitter s = Some p" "epc p \<in> {E_entry, E_incr, E_test}"
  shows "emit_moves s \<noteq> []"
  using assms by (cases "epc p") (simp_all add: emit_moves_def emit_op_def)

lemma sync_moves_nonempty:
  assumes "emitter s = Some p" "epc p = E_select" "0 \<le> ei p" "ei p < 3"
    and "mpc (mainr s) = M_recv \<and> \<not> wordClosed s \<or> mpc (mainr s) = M_send \<and> \<not> doneClosed s"
  shows "sync_moves s \<noteq> []"
  using assms by (auto simp: sync_moves_def emit_op_def main_op_def length_words)

lemma inv_progress:
  assumes I: "inv tr s" and R: "status s = Running"
  shows "succs s \<noteq> []"
proof (cases "mpc (mainr s) \<in> {M_recv, M_send}")
  case False
  moreover from I R have "mpc (mainr s) \<noteq> M_done" by (simp add: inv_def split: if_splits)
  ultimately have "main_moves s \<noteq> []" by (intro main_moves_nonempty) simp
  with R show ?thesis by (simp add: succs_def)
next
  case True
  with I obtain p where Some: "emitter s = Some p"
    by (cases "emitter s") (auto simp: inv_def)
  note E = inv_emitterD[OF I Some]
  from E(2) True have ns: "\<not> stopped p" by auto
  show ?thesis
  proof (cases "epc p = E_select")
    case False
    with ns have "epc p \<in> {E_entry, E_incr, E_test}"
      by (cases "epc p") (simp_all add: stopped_def)
    with Some have "emit_moves s \<noteq> []" by (rule emit_moves_nonempty)
    with R show ?thesis by (simp add: succs_def)
  next
    case sel: True
    with inv_select_index[OF I Some] have i: "0 \<le> ei p" "ei p < 3" by simp_all
    from E(3) sel have "\<not> doneClosed s" by simp
    moreover from I have "\<not> wordClosed s" by (simp add: inv_def)
    ultimately have "sync_moves s \<noteq> []"
      using True by (intro sync_moves_nonempty[OF Some sel i]) auto
    with R show ?thesis by (simp add: succs_def)
  qed
qed

lemma received_append: "received (xs @ ys) = received xs @ received ys"
  by (induction xs rule: received.induct) simp_all

lemma stops_append: "stops (xs @ ys) = stops xs @ stops ys"
  by (induction xs rule: stops.induct) simp_all

lemma length_cycle: "length (cycle n) = n"
  by (simp add: cycle_def)

lemma nth_cycle: "k < n \<Longrightarrow> cycle n ! k = words ! (k mod 3)"
  by (simp add: cycle_def length_words)

lemma set_cycle: "set (cycle n) \<subseteq> set words"
  by (auto simp: cycle_def length_words)

lemma cycle_101: "cycle 101 = take 101 (concat (replicate 34 words))"
  by code_simp

lemma got_le: "main_inv m \<Longrightarrow> got m \<le> 101"
  by (cases "mpc m") (auto simp: main_inv_def got_def)

lemma inv_exited:
  assumes "inv tr s" "status s = Exited"
  shows "mpc (mainr s) = M_done" "got (mainr s) = 101" "shown (mainr s) = 101"
proof -
  from assms show m: "mpc (mainr s) = M_done" by (simp add: inv_def split: if_splits)
  with assms(1) have "mi (mainr s) = 101" by (simp add: inv_def main_inv_def)
  with m show "got (mainr s) = 101" "shown (mainr s) = 101" by (simp_all add: got_def shown_def)
qed

lemma inv_obs:
  assumes "inv tr s"
  shows "received tr = cycle (got (mainr s))" "printed tr = cycle (shown (mainr s))"
    "stdout s = concat (map println (printed tr))"
    "stops tr = (if mpc (mainr s) \<in> {M_return, M_done} then [True] else [])"
    "main_inv (mainr s)"
  using assms by (simp_all add: inv_def)

lemma final_output:
  assumes "run tr s" "status s = Exited"
  shows "received tr = cycle 101" "printed tr = cycle 101" "stdout s = all_printed"
proof -
  from assms(1) have I: "inv tr s" by (rule run_inv)
  from inv_obs(1)[OF I] inv_exited(2)[OF I assms(2)] show r: "received tr = cycle 101" by simp
  from inv_obs(2)[OF I] inv_exited(3)[OF I assms(2)] show p: "printed tr = cycle 101" by simp
  with inv_obs(3)[OF I] show "stdout s = all_printed" by (simp add: all_printed_def)
qed

lemma newline_count:
  assumes "\<forall>w\<in>set ws. CHR 0x0A \<notin> set w"
  shows "length (filter (\<lambda>c. c = CHR 0x0A) (concat (map println ws))) = length ws"
  using assms by (induction ws) (auto simp: println_def filter_empty_conv)

lemma words_no_newline: "\<forall>w\<in>set words. CHR 0x0A \<notin> set w"
  by (simp add: words_def)

lemma all_printed_lines: "length (filter (\<lambda>c. c = CHR 0x0A) all_printed) = 101"
  unfolding all_printed_def
  using newline_count[of "cycle 101"] set_cycle[of 101] words_no_newline
  by (auto simp: length_cycle)

section \<open>Further consequences of the invariant\<close>

lemma status_early: "status early_exit_state = Exited" by (simp add: early_exit_state_def st_def)

lemma status_late: "status late_exit_state = Exited" by (simp add: late_exit_state_def st_def)

lemma succs_exited: "status s = Exited \<Longrightarrow> succs s = []"
  by (simp add: succs_def)

lemma emit_select_stop:
  assumes "emit_op p = E_Select w p' k"
  shows "epc (k b) = E_close"
  using assms by (cases "epc p") (auto simp: emit_op_def split: if_splits)

lemma stopped_step:
  assumes I: "inv tr s" and E: "emitter s = Some p" and S: "stopped p"
    and st: "(e, t) \<in> set (succs s)"
  shows "e \<in> {Closed, Local, Exit} \<and> (\<exists>q. emitter t = Some q \<and> stopped q)"
proof -
  from inv_emitterD(2)[OF I E] S have m: "mpc (mainr s) \<in> {M_return, M_done}" by simp
  from st show ?thesis
  proof (cases rule: step_cases)
    case exit with E S show ?thesis by simp
  next
    case (e_close q) with E S show ?thesis by (simp add: stopped_def)
  next
    case (e_return q) with E S show ?thesis by (simp add: stopped_def)
  qed (use m E S inv_no_fault[OF I st] in \<open>auto simp: stopped_def\<close>)
qed

lemma stop_step:
  assumes I: "inv tr s" and st: "(StopSent b, t) \<in> set (succs s)"
  shows "b = True \<and> got (mainr s) = 101 \<and> mpc (mainr s) = M_send"
  using st
proof (cases rule: step_cases)
  case (stop p)
  with I show ?thesis by (simp add: inv_def main_inv_def got_def)
qed simp_all

lemma stop_position:
  assumes r: "run tr s" and d: "tr = pre @ StopSent b # post"
  shows "b = True \<and> length (received pre) = 101 \<and> stops pre = [] \<and>
         received post = [] \<and> stops post = []"
proof -
  from r d have "run ((pre @ [StopSent b]) @ post) s" by simp
  then obtain t where t: "run (pre @ [StopSent b]) t" using run_appendD by blast
  then obtain u where u: "run pre u" "(StopSent b, t) \<in> set (succs u)"
    using run_snocD by blast
  from u(1) have Iu: "inv pre u" by (rule run_inv)
  note s = stop_step[OF Iu u(2)]
  from inv_obs(1)[OF Iu] s have lp: "length (received pre) = 101" by (simp add: length_cycle)
  from inv_obs(4)[OF Iu] s have sp: "stops pre = []" by simp
  from r have I: "inv tr s" by (rule run_inv)
  from inv_obs(1)[OF I] got_le[OF inv_obs(5)[OF I]] have "length (received tr) \<le> 101"
    by (simp add: length_cycle)
  with d lp have "received post = []" by (simp add: received_append)
  moreover from inv_obs(4)[OF I] have "length (stops tr) \<le> 1" by simp
  with d have "stops post = []" by (simp add: stops_append)
  ultimately show ?thesis using s lp sp by blast
qed

lemma solo_inv_init: "solo_inv [] emit_init"
  by (simp add: solo_inv_def emit_init_def)

lemma emit_acts_select:
  assumes "epc p = E_select" "0 \<le> ei p" "ei p < 3"
  shows "emit_acts p = [(A_Send (words ! nat (ei p)), p\<lparr>epc := E_incr\<rparr>),
           (A_Stop True, p\<lparr>epc := E_close\<rparr>), (A_Stop False, p\<lparr>epc := E_close\<rparr>)]"
  using assms by (simp add: emit_acts_def emit_op_def length_words)

lemma solo_inv_step:
  assumes "solo_inv as p" "(a, q) \<in> set (emit_acts p)"
  shows "solo_inv (as @ [a]) q"
proof (cases "epc p")
  case E_select
  with assms(1) have r: "0 \<le> ei p" "ei p < 3" and n: "\<not> list_ex is_stop as"
    by (simp_all add: solo_inv_def)
  from assms(2) emit_acts_select[OF E_select r]
  consider "a = A_Send (words ! nat (ei p))" "q = p\<lparr>epc := E_incr\<rparr>"
    | b where "a = A_Stop b" "q = p\<lparr>epc := E_close\<rparr>"
    by auto
  then show ?thesis using r n by cases (simp_all add: solo_inv_def)
next
  case E_entry
  with assms show ?thesis by (simp add: solo_inv_def emit_acts_def emit_op_def)
next
  case E_incr
  with assms show ?thesis by (simp add: solo_inv_def emit_acts_def emit_op_def)
next
  case E_test
  with assms show ?thesis by (simp add: solo_inv_def emit_acts_def emit_op_def length_words)
next
  case E_close
  with assms show ?thesis by (simp add: solo_inv_def emit_acts_def emit_op_def)
next
  case E_return
  with assms show ?thesis by (simp add: solo_inv_def emit_acts_def emit_op_def)
next
  case E_done
  with assms show ?thesis by (simp add: solo_inv_def emit_acts_def emit_op_def)
qed

lemma emit_run_inv: "emit_run as p \<Longrightarrow> solo_inv as p"
  by (induction rule: emit_run.induct) (simp_all add: solo_inv_init solo_inv_step)

lemma solo_continue:
  assumes "solo_inv as p" "\<not> list_ex is_stop as"
  shows "\<exists>a q. (a, q) \<in> set (emit_acts p) \<and> \<not> is_stop a"
proof (cases "epc p")
  case E_select
  with assms(1) have r: "0 \<le> ei p" "ei p < 3" by (simp_all add: solo_inv_def)
  have "\<not> is_stop (A_Send (words ! nat (ei p)))" by simp
  moreover have "(A_Send (words ! nat (ei p)), p\<lparr>epc := E_incr\<rparr>) \<in> set (emit_acts p)"
    by (simp add: emit_acts_select[OF E_select r])
  ultimately show ?thesis by blast
next
  case E_entry
  then have "(A_Local, p\<lparr>epc := E_select, ei := 0\<rparr>) \<in> set (emit_acts p)"
    by (simp add: emit_acts_def emit_op_def)
  moreover have "\<not> is_stop A_Local" by simp
  ultimately show ?thesis by blast
next
  case E_incr
  then have "(A_Local, p\<lparr>epc := E_test, ei := ei p + 1\<rparr>) \<in> set (emit_acts p)"
    by (simp add: emit_acts_def emit_op_def)
  moreover have "\<not> is_stop A_Local" by simp
  ultimately show ?thesis by blast
next
  case E_test
  then have "(A_Local, p\<lparr>epc := E_select, ei := (if ei p = 3 then 0 else ei p)\<rparr>)
      \<in> set (emit_acts p)"
    by (simp add: emit_acts_def emit_op_def length_words)
  moreover have "\<not> is_stop A_Local" by simp
  ultimately show ?thesis by blast
next
  case E_close with assms show ?thesis by (simp add: solo_inv_def)
next
  case E_return with assms show ?thesis by (simp add: solo_inv_def)
next
  case E_done with assms show ?thesis by (simp add: solo_inv_def)
qed

lemma solo_forever:
  "\<exists>as p. emit_run as p \<and> length as = n \<and> \<not> list_ex is_stop as"
proof (induction n)
  case 0
  have "emit_run [] emit_init" by (rule emit_run_init)
  then show ?case by force
next
  case (Suc n)
  then obtain as p where r: "emit_run as p" "length as = n" "\<not> list_ex is_stop as" by blast
  from solo_continue[OF emit_run_inv[OF r(1)] r(3)]
  obtain a q where s: "(a, q) \<in> set (emit_acts p)" "\<not> is_stop a" by blast
  from r(1) s(1) have "emit_run (as @ [a]) q" by (rule emit_run_step)
  moreover from r(2) have "length (as @ [a]) = Suc n" by simp
  moreover from r(3) s(2) have "\<not> list_ex is_stop (as @ [a])" by simp
  ultimately show ?case by blast
qed

lemma emit_select_const:
  assumes "emit_op p = E_Select w p' k"
  shows "k True = k False"
proof (cases "epc p = E_select \<and> 0 \<le> ei p \<and> ei p < 3")
  case True
  with assms have "k = (\<lambda>b. p\<lparr>epc := E_close\<rparr>)"
    by (simp add: emit_op_def length_words)
  then show ?thesis by simp
next
  case False
  with assms show ?thesis
    by (cases "epc p") (auto simp: emit_op_def length_words)
qed

lemma lines_from_line:
  assumes "CHR 0x0A \<notin> set w"
  shows "lines_from cur (w @ CHR 0x0A # rest) = (cur @ w) # lines_from [] rest"
  using assms by (induction w arbitrary: cur) auto

lemma lines_of_concat:
  assumes "\<forall>w\<in>set ws. CHR 0x0A \<notin> set w"
  shows "lines_of (concat (map (\<lambda>w. w @ [CHR 0x0A]) ws)) = ws"
  using assms unfolding lines_of_def
proof (induction ws)
  case Nil
  then show ?case by simp
next
  case (Cons w ws)
  then have "lines_from [] (w @ CHR 0x0A # concat (map (\<lambda>w. w @ [CHR 0x0A]) ws))
      = ([] @ w) # lines_from [] (concat (map (\<lambda>w. w @ [CHR 0x0A]) ws))"
    by (intro lines_from_line) simp
  with Cons show ?case by simp
qed

lemma process_run_run:
  assumes "process_run env tr pr"
  shows "run tr (prog pr) \<and> penv pr = env"
  using assms
proof (induction rule: process_run.induct)
  case process_run_start
  then show ?case by (simp add: start_def run_init)
next
  case (process_run_step tr pr e pr')
  from process_run_step.hyps(2) obtain t where t: "(e, t) \<in> set (succs (prog pr))"
    "pr' = pr\<lparr>prog := t\<rparr>"
    by (auto simp: process_succs_def)
  from process_run_step.IH t(1) have "run (tr @ [e]) t" by (blast intro: run_step)
  with t(2) process_run_step.IH show ?case by simp
qed

lemma run_process_run:
  assumes "run tr s"
  shows "process_run env tr \<lparr>penv = env, prog = s\<rparr>"
  using assms
proof (induction rule: run.induct)
  case run_init
  have "process_run env [] (start env)" by (rule process_run_start)
  then show ?case by (simp add: start_def)
next
  case (run_step tr s e t)
  from run_step.hyps(2)
  have "(e, \<lparr>penv = env, prog = s\<rparr>\<lparr>prog := t\<rparr>) \<in> set (process_succs \<lparr>penv = env, prog = s\<rparr>)"
    by (force simp: process_succs_def)
  with run_step.IH have "process_run env (tr @ [e]) (\<lparr>penv = env, prog = s\<rparr>\<lparr>prog := t\<rparr>)"
    by (rule process_run_step)
  then show ?case by simp
qed

lemma stdout_step:
  assumes I: "inv tr s" and st: "(e, t) \<in> set (succs s)"
  shows "stdout t = stdout s @ (case e of Printed w \<Rightarrow> w @ [CHR 0x0A] | _ \<Rightarrow> [])"
  using st
proof (cases rule: step_cases)
  case print then show ?thesis by (simp add: println_def)
qed (use inv_no_fault[OF I st] in simp_all)

lemma all_printed_explicit:
  "all_printed = concat (map (\<lambda>w. w @ [CHR 0x0A]) (take 101 (concat (replicate 34 words))))"
proof -
  have "println = (\<lambda>w. w @ [CHR 0x0A])" by (rule ext) (simp add: println_def)
  then show ?thesis by (simp add: all_printed_def cycle_101)
qed

lemma process_step_frame:
  assumes r: "process_run env tr pr" and st: "(e, pr') \<in> set (process_succs pr)"
  shows "penv pr' = penv pr \<and>
         stdout (prog pr') = stdout (prog pr) @ (case e of Printed w \<Rightarrow> w @ [CHR 0x0A] | _ \<Rightarrow> [])"
proof -
  from st obtain t where t: "(e, t) \<in> set (succs (prog pr))" "pr' = pr\<lparr>prog := t\<rparr>"
    by (auto simp: process_succs_def)
  from process_run_run[OF r] have "inv tr (prog pr)" by (blast intro: run_inv)
  from stdout_step[OF this t(1)] t(2) show ?thesis by simp
qed

section \<open>The claims\<close>

text \<open>
  Claim C1. In every execution that has run to its end, the words that went over the word
  channel are the three-word cycle \<open>feed, the, monkey\<close> repeated and cut off after 101
  elements, the words printed are the same sequence, the console holds exactly these
  words, one per line, and the \<open>k\<close>-th word, for \<open>k\<close> from 0 to 100, is
  \<open>words[k mod 3]\<close>.
\<close>

theorem C1_words_observed:
  assumes "run tr s" and "status s = Exited"
  shows "received tr = take 101 (concat (replicate 34 words)) \<and>
         printed tr = received tr \<and>
         stdout s = concat (map println (received tr)) \<and>
         length (received tr) = 101 \<and>
         (\<forall>k<101. received tr ! k = words ! (k mod 3))"
proof -
  note f = final_output[OF assms]
  have "\<forall>k<101. cycle 101 ! k = words ! (k mod 3)" by (simp add: nth_cycle)
  with f show ?thesis by (simp add: cycle_101[symmetric] length_cycle all_printed_def)
qed

theorem C1_words_observed_witness:
  "run early_exit_trace early_exit_state \<and> status early_exit_state = Exited \<and>
   received early_exit_trace = take 101 (concat (replicate 34 words)) \<and>
   printed early_exit_trace = received early_exit_trace \<and>
   length (received early_exit_trace) = 101 \<and>
   received early_exit_trace ! 100 = words ! (100 mod 3)"
proof -
  have x: "status early_exit_state = Exited" by (simp add: early_exit_state_def st_def)
  note t = C1_words_observed[OF run_early_exit x]
  from t have "\<forall>k<101. received early_exit_trace ! k = words ! (k mod 3)" by blast
  then have "received early_exit_trace ! 100 = words ! (100 mod 3)" by simp
  with t run_early_exit x show ?thesis by blast
qed

text \<open>
  Claim C2, amended. The program terminates under every scheduling: no execution takes
  more than 1227 steps, and an execution can only come to a halt because the program has
  exited (it never blocks with \<open>main\<close> unfinished). When it has exited, \<open>main\<close> has returned
  after exactly 101 receives, the stop signal has been delivered exactly once, and the
  emitter has left its loop through the done branch. What does not hold is that the
  emitter has finished as well: it has closed the channel and returned only if it was
  scheduled before \<open>main\<close> returned.
\<close>

theorem C2_always_terminates:
  assumes "run tr s"
  shows "length tr \<le> 1227 \<and>
         (succs s = [] \<longrightarrow> status s = Exited) \<and>
         (status s = Exited \<longrightarrow>
            succs s = [] \<and> mpc (mainr s) = M_done \<and>
            length (received tr) = 101 \<and> stops tr = [True] \<and>
            (\<exists>p. emitter s = Some p \<and> epc p \<in> {E_close, E_return, E_done}))"
proof -
  from assms have I: "inv tr s" by (rule run_inv)
  have "length tr \<le> 1227" using run_bound[OF assms] by simp
  moreover have "status s = Exited" if "succs s = []"
  proof -
    from that inv_progress[OF I] have "status s \<noteq> Running" by blast
    with inv_status[OF I] show ?thesis by (simp split: if_splits)
  qed
  moreover have "succs s = [] \<and> mpc (mainr s) = M_done \<and>
            length (received tr) = 101 \<and> stops tr = [True] \<and>
            (\<exists>p. emitter s = Some p \<and> epc p \<in> {E_close, E_return, E_done})"
    if x: "status s = Exited"
  proof -
    note m = inv_exited[OF I x]
    from m(1) I obtain p where p: "emitter s = Some p"
      by (cases "emitter s") (auto simp: inv_def)
    from inv_emitterD(2)[OF I p] m(1) have "epc p \<in> {E_close, E_return, E_done}"
      by (simp add: stopped_def)
    moreover from final_output(1)[OF assms x] have "length (received tr) = 101"
      by (simp add: length_cycle)
    moreover from inv_obs(4)[OF I] m(1) have "stops tr = [True]" by simp
    ultimately show ?thesis using succs_exited[OF x] m(1) p by blast
  qed
  ultimately show ?thesis by blast
qed

theorem C2_always_terminates_witness:
  "run late_exit_trace late_exit_state \<and>
   length late_exit_trace \<le> 1227 \<and>
   succs late_exit_state = [] \<and> status late_exit_state = Exited \<and>
   mpc (mainr late_exit_state) = M_done \<and>
   length (received late_exit_trace) = 101 \<and> stops late_exit_trace = [True] \<and>
   (\<exists>p. emitter late_exit_state = Some p \<and> epc p \<in> {E_close, E_return, E_done})"
  using C2_always_terminates[OF run_late_exit] run_late_exit status_late by blast

text \<open>
  Counterexample to claim C2 as stated. The claim says that after the stop signal is
  delivered both routines finish. In the execution \<open>early_exit_trace\<close> the program has
  run to its end (it has exited and no step is left), the stop signal has been delivered,
  and the emitter still stands before \<open>close(doneChannel)\<close> (line 16): \<open>main\<close> returned
  right after its send of line 30, and the program exited before the emitter was
  scheduled again. The done channel was never closed and \<open>emit\<close> never returned.
\<close>

theorem C2_emitter_unfinished_counterexample:
  "run early_exit_trace early_exit_state \<and>
   succs early_exit_state = [] \<and>
   status early_exit_state = Exited \<and>
   stops early_exit_trace = [True] \<and>
   emitter early_exit_state = Some \<lparr>epc = E_close, ei = 2\<rparr> \<and>
   emit_op \<lparr>epc = E_close, ei = 2\<rparr> = E_Close \<lparr>epc = E_return, ei = 2\<rparr> \<and>
   \<not> doneClosed early_exit_state"
proof -
  have "stops early_exit_trace = [True]"
    using inv_obs(4)[OF run_inv[OF run_early_exit]] by (simp add: early_exit_state_def st_def)
  moreover have "emitter early_exit_state = Some \<lparr>epc = E_close, ei = 2\<rparr>"
    "\<not> doneClosed early_exit_state"
    by (simp_all add: early_exit_state_def st_def)
  moreover have "emit_op \<lparr>epc = E_close, ei = 2\<rparr> = E_Close \<lparr>epc = E_return, ei = 2\<rparr>"
    by (simp add: emit_op_def)
  ultimately show ?thesis
    using run_early_exit status_early succs_exited[OF status_early] by blast
qed

text \<open>
  Claim C3, amended. Once the emitter has taken the done branch of its \<open>select\<close> (it is at
  \<open>close(doneChannel)\<close>, at \<open>return\<close>, or has returned), the stop signal has been delivered,
  and every step the program can take from there is the close, the return or the exit of
  \<open>main\<close>: no word is sent any more, and the emitter never re-enters its loop. While the
  program runs, the emitter's next step at line 16 is the close of the still open done
  channel (it cannot panic), and at line 17 it is the return, with the channel closed.
  The program is never stuck: if no step is possible, it has exited. Whatever boolean the
  done branch receives, it continues at \<open>close(doneChannel)\<close>. The close and the return
  are the emitter's only remaining steps; they are taken unless the program exits first.
\<close>

theorem C3_after_stop_signal:
  assumes "run tr s" and "emitter s = Some p" and "epc p \<in> {E_close, E_return, E_done}"
  shows "stops tr = [True] \<and>
         (\<forall>e t. (e, t) \<in> set (succs s) \<longrightarrow>
            e \<in> {Closed, Local, Exit} \<and>
            (\<exists>q. emitter t = Some q \<and> epc q \<in> {E_close, E_return, E_done})) \<and>
         (status s = Running \<and> epc p = E_close \<longrightarrow>
            \<not> doneClosed s \<and>
            (Closed, s\<lparr>emitter := Some (p\<lparr>epc := E_return\<rparr>), doneClosed := True\<rparr>)
              \<in> set (succs s)) \<and>
         (status s = Running \<and> epc p = E_return \<longrightarrow>
            doneClosed s \<and> (Local, s\<lparr>emitter := Some (p\<lparr>epc := E_done\<rparr>)\<rparr>) \<in> set (succs s)) \<and>
         (succs s = [] \<longrightarrow> status s = Exited) \<and>
         (\<forall>q w q' k b. emit_op q = E_Select w q' k \<longrightarrow> epc (k b) = E_close)"
proof -
  from assms(1) have I: "inv tr s" by (rule run_inv)
  from assms(3) have S: "stopped p" by (simp add: stopped_def)
  note E = inv_emitterD[OF I assms(2)]
  from E(2) S inv_obs(4)[OF I] have "stops tr = [True]" by simp
  moreover have "\<forall>e t. (e, t) \<in> set (succs s) \<longrightarrow>
            e \<in> {Closed, Local, Exit} \<and>
            (\<exists>q. emitter t = Some q \<and> epc q \<in> {E_close, E_return, E_done})"
    using stopped_step[OF I assms(2) S] by (simp add: stopped_def)
  moreover have "\<not> doneClosed s \<and>
      (Closed, s\<lparr>emitter := Some (p\<lparr>epc := E_return\<rparr>), doneClosed := True\<rparr>) \<in> set (succs s)"
    if "status s = Running \<and> epc p = E_close"
    using that E(3) assms(2) by (simp add: succs_def emit_moves_def emit_op_def)
  moreover have "doneClosed s \<and> (Local, s\<lparr>emitter := Some (p\<lparr>epc := E_done\<rparr>)\<rparr>) \<in> set (succs s)"
    if "status s = Running \<and> epc p = E_return"
    using that E(3) assms(2) by (simp add: succs_def emit_moves_def emit_op_def)
  moreover have "status s = Exited" if "succs s = []"
  proof -
    from that inv_progress[OF I] have "status s \<noteq> Running" by blast
    with inv_status[OF I] show ?thesis by (simp split: if_splits)
  qed
  moreover have "\<forall>q w q' k b. emit_op q = E_Select w q' k \<longrightarrow> epc (k b) = E_close"
    using emit_select_stop by blast
  ultimately show ?thesis by blast
qed

theorem C3_after_stop_signal_witness:
  "run stop_trace stop_state \<and>
   emitter stop_state = Some \<lparr>epc = E_close, ei = 2\<rparr> \<and>
   status stop_state = Running \<and>
   stops stop_trace = [True] \<and>
   \<not> doneClosed stop_state \<and>
   (Closed, stop_state\<lparr>emitter := Some (\<lparr>epc = E_close, ei = 2\<rparr>\<lparr>epc := E_return\<rparr>),
                       doneClosed := True\<rparr>) \<in> set (succs stop_state) \<and>
   (\<exists>q. emitter (stop_state\<lparr>emitter := Some (\<lparr>epc = E_close, ei = 2\<rparr>\<lparr>epc := E_return\<rparr>),
                       doneClosed := True\<rparr>) = Some q \<and> epc q \<in> {E_close, E_return, E_done})"
proof -
  have e: "emitter stop_state = Some \<lparr>epc = E_close, ei = 2\<rparr>"
    and r: "status stop_state = Running"
    by (simp_all add: stop_state_def st_def)
  have c: "epc \<lparr>epc = E_close, ei = 2\<rparr> \<in> {E_close, E_return, E_done}"
    and c': "epc \<lparr>epc = E_close, ei = 2\<rparr> = E_close" by simp_all
  note t = C3_after_stop_signal[OF run_stop e c]
  from t r c' have m: "\<not> doneClosed stop_state \<and>
    (Closed, stop_state\<lparr>emitter := Some (\<lparr>epc = E_close, ei = 2\<rparr>\<lparr>epc := E_return\<rparr>),
                       doneClosed := True\<rparr>) \<in> set (succs stop_state)"
    by blast
  with t have "\<exists>q. emitter (stop_state\<lparr>emitter := Some (\<lparr>epc = E_close, ei = 2\<rparr>\<lparr>epc := E_return\<rparr>),
                       doneClosed := True\<rparr>) = Some q \<and> epc q \<in> {E_close, E_return, E_done}"
    by blast
  with t m e r run_stop show ?thesis by blast
qed

text \<open>
  Counterexample to claim C3 as stated. The claim says that upon receiving the stop
  signal the producer closes the done channel and returns. In the execution
  \<open>early_exit_trace\<close> the stop signal is handed over to the emitter, no close of the done
  channel ever happens, and the program has exited with the emitter still before
  \<open>close(doneChannel)\<close>.
\<close>

theorem C3_no_close_counterexample:
  "run early_exit_trace early_exit_state \<and>
   StopSent True \<in> set early_exit_trace \<and>
   Closed \<notin> set early_exit_trace \<and>
   map_option epc (emitter early_exit_state) = Some E_close \<and>
   status early_exit_state = Exited \<and>
   succs early_exit_state = []"
proof -
  have "StopSent True \<in> set early_exit_trace"
    by (simp add: early_exit_trace_def stop_trace_def)
  moreover have "filter (\<lambda>e. e = Closed) early_exit_trace = []"
    using inv_quiet(5)[OF run_inv[OF run_early_exit]] by (simp add: early_exit_state_def st_def)
  then have "Closed \<notin> set early_exit_trace" by (auto simp: filter_empty_conv)
  moreover have "map_option epc (emitter early_exit_state) = Some E_close"
    by (simp add: early_exit_state_def st_def)
  ultimately show ?thesis
    using run_early_exit status_early succs_exited[OF status_early] by blast
qed

text \<open>
  Claim C4. In every execution \<open>main\<close> receives at most 101 words and sends at most one
  stop signal. Wherever a stop signal occurs in an execution, it carries \<open>true\<close>, exactly
  101 words were received before it, no stop signal was sent before it, and neither a
  word nor a second stop signal follows it. An execution that has run to its end holds
  101 receives and exactly one stop signal.
\<close>

theorem C4_one_stop_after_all_receives:
  assumes "run tr s"
  shows "length (received tr) \<le> 101 \<and> length (stops tr) \<le> 1 \<and>
         (\<forall>pre b post. tr = pre @ StopSent b # post \<longrightarrow>
            b = True \<and> length (received pre) = 101 \<and> stops pre = [] \<and>
            received post = [] \<and> stops post = []) \<and>
         (status s = Exited \<longrightarrow> length (received tr) = 101 \<and> stops tr = [True])"
proof -
  from assms have I: "inv tr s" by (rule run_inv)
  from inv_obs(1)[OF I] got_le[OF inv_obs(5)[OF I]] have "length (received tr) \<le> 101"
    by (simp add: length_cycle)
  moreover from inv_obs(4)[OF I] have "length (stops tr) \<le> 1" by simp
  moreover have "length (received tr) = 101 \<and> stops tr = [True]" if x: "status s = Exited"
    using inv_obs(1,4)[OF I] inv_exited(1,2)[OF I x] by (simp add: length_cycle)
  ultimately show ?thesis using stop_position[OF assms] by blast
qed

theorem C4_one_stop_after_all_receives_witness:
  "run early_exit_trace early_exit_state \<and>
   early_exit_trace = send_trace @ StopSent True # [Exit] \<and>
   status early_exit_state = Exited \<and>
   length (received send_trace) = 101 \<and> stops send_trace = [] \<and>
   received [Exit] = [] \<and> stops [Exit] = [] \<and>
   length (received early_exit_trace) = 101 \<and> stops early_exit_trace = [True]"
proof -
  have d: "early_exit_trace = send_trace @ StopSent True # [Exit]"
    by (simp add: early_exit_trace_def stop_trace_def)
  note t = C4_one_stop_after_all_receives[OF run_early_exit]
  from t d have "length (received send_trace) = 101 \<and> stops send_trace = []" by blast
  moreover from t status_early
  have "length (received early_exit_trace) = 101 \<and> stops early_exit_trace = [True]" by blast
  ultimately show ?thesis using d run_early_exit status_early by simp
qed

text \<open>
  Claim C5. The index \<open>i\<close> of \<open>emit\<close> stays between 0 and \<open>len(words) = 3\<close> at every
  control point, so its increment never overflows. At the head of the loop (the
  \<open>select\<close>) it satisfies \<open>0 \<le> i < len(words)\<close> and equals the number of words sent so
  far modulo 3. After a send, the two statements of lines 11 to 14 bring the emitter
  back to the head of the loop with the index advanced by one modulo 3.
\<close>

theorem C5_index_wraps:
  assumes "run tr s" and "emitter s = Some p"
  shows "0 \<le> ei p \<and> ei p \<le> int (length words) \<and> length words = 3 \<and>
         (epc p = E_select \<longrightarrow>
            0 \<le> ei p \<and> ei p < int (length words) \<and>
            ei p = int (length (received tr) mod length words) \<and>
            (\<exists>p1 k p2 p3.
               emit_op p = E_Select (words ! nat (ei p)) p1 k \<and>
               emit_op p1 = E_Local p2 \<and> emit_op p2 = E_Local p3 \<and>
               epc p3 = E_select \<and> ei p3 = (ei p + 1) mod int (length words)))"
proof -
  from assms(1) have I: "inv tr s" by (rule run_inv)
  note E = inv_emitterD(1)[OF I assms(2)]
  from E have b: "0 \<le> ei p \<and> ei p \<le> 3"
    by (cases "epc p") (simp_all add: emit_inv_def)
  have "0 \<le> ei p \<and> ei p < 3 \<and> ei p = int (length (received tr) mod 3) \<and>
        (\<exists>p1 k p2 p3.
               emit_op p = E_Select (words ! nat (ei p)) p1 k \<and>
               emit_op p1 = E_Local p2 \<and> emit_op p2 = E_Local p3 \<and>
               epc p3 = E_select \<and> ei p3 = (ei p + 1) mod 3)"
    if sel: "epc p = E_select"
  proof -
    from inv_select_index[OF I assms(2) sel] inv_obs(1)[OF I]
    have i: "ei p = int (length (received tr) mod 3)" by (simp add: length_cycle)
    then have r: "0 \<le> ei p" "ei p < 3" by simp_all
    let ?p1 = "p\<lparr>epc := E_incr\<rparr>" and ?p2 = "p\<lparr>epc := E_test, ei := ei p + 1\<rparr>"
    let ?p3 = "p\<lparr>epc := E_select, ei := (if ei p + 1 = 3 then 0 else ei p + 1)\<rparr>"
    from sel r have "emit_op p = E_Select (words ! nat (ei p)) ?p1 (\<lambda>b. p\<lparr>epc := E_close\<rparr>)"
      by (simp add: emit_op_def length_words)
    moreover have "emit_op ?p1 = E_Local ?p2" by (simp add: emit_op_def)
    moreover have "emit_op ?p2 = E_Local ?p3" by (simp add: emit_op_def length_words)
    moreover have "epc ?p3 = E_select" by simp
    moreover from r have "ei ?p3 = (ei p + 1) mod 3" by auto
    ultimately show ?thesis using r i by blast
  qed
  then have "epc p = E_select \<longrightarrow>
            0 \<le> ei p \<and> ei p < int (length words) \<and>
            ei p = int (length (received tr) mod length words) \<and>
            (\<exists>p1 k p2 p3.
               emit_op p = E_Select (words ! nat (ei p)) p1 k \<and>
               emit_op p1 = E_Local p2 \<and> emit_op p2 = E_Local p3 \<and>
               epc p3 = E_select \<and> ei p3 = (ei p + 1) mod int (length words))"
    by (simp only: length_words of_nat_numeral) blast
  moreover from b have "0 \<le> ei p \<and> ei p \<le> int (length words) \<and> length words = 3"
    by (simp add: length_words)
  ultimately show ?thesis by blast
qed

theorem C5_index_wraps_witness:
  "run send_trace send_state \<and>
   emitter send_state = Some \<lparr>epc = E_select, ei = 2\<rparr> \<and>
   length words = 3 \<and>
   0 \<le> ei \<lparr>epc = E_select, ei = 2\<rparr> \<and> ei \<lparr>epc = E_select, ei = 2\<rparr> < int (length words) \<and>
   ei \<lparr>epc = E_select, ei = 2\<rparr> = int (length (received send_trace) mod length words) \<and>
   (\<exists>p1 k p2 p3.
      emit_op \<lparr>epc = E_select, ei = 2\<rparr> = E_Select (words ! nat (ei \<lparr>epc = E_select, ei = 2\<rparr>)) p1 k \<and>
      emit_op p1 = E_Local p2 \<and> emit_op p2 = E_Local p3 \<and>
      epc p3 = E_select \<and> ei p3 = (ei \<lparr>epc = E_select, ei = 2\<rparr> + 1) mod int (length words))"
proof -
  have e: "emitter send_state = Some \<lparr>epc = E_select, ei = 2\<rparr>"
    by (simp add: send_state_def st_def)
  have c: "epc \<lparr>epc = E_select, ei = 2\<rparr> = E_select" by simp
  from C5_index_wraps[OF run_send e] c e run_send show ?thesis by blast
qed

text \<open>
  Claim C6. Whatever arguments, environment variables and standard input the process is
  started with, they play no part: the same execution is possible with any other, and no
  step changes them. Every step leaves the console alone, except a \<open>Println\<close>, which
  appends its word and a newline: the console is the program's only effect. When the
  program has exited, the console is the text of 101 lines whose line \<open>k\<close> is the word
  \<open>words[k mod 3]\<close>, that is the cycle \<open>feed, the, monkey\<close> repeated and cut off after 101
  words, one word per line, and these lines are the words passed to \<open>Println\<close>. The exit is
  the return of \<open>main\<close> with its counter at 101, not a panic.
\<close>

theorem C6_console_output_and_exit:
  assumes "process_run env tr pr" and "status (prog pr) = Exited"
  shows "stdout (prog pr) =
           concat (map (\<lambda>w. w @ [CHR 0x0A]) (take 101 (concat (replicate 34 words)))) \<and>
         lines_of (stdout (prog pr)) = take 101 (concat (replicate 34 words)) \<and>
         length (lines_of (stdout (prog pr))) = 101 \<and>
         (\<forall>k<101. lines_of (stdout (prog pr)) ! k = words ! (k mod 3)) \<and>
         printed tr = lines_of (stdout (prog pr)) \<and>
         Panic \<notin> set tr \<and> mpc (mainr (prog pr)) = M_done \<and> mi (mainr (prog pr)) = 101 \<and>
         penv pr = env \<and>
         (\<forall>env'. process_run env' tr (pr\<lparr>penv := env'\<rparr>)) \<and>
         (\<forall>tr0 p0 e p1. process_run env tr0 p0 \<and> (e, p1) \<in> set (process_succs p0) \<longrightarrow>
            penv p1 = penv p0 \<and>
            stdout (prog p1) =
              stdout (prog p0) @ (case e of Printed w \<Rightarrow> w @ [CHR 0x0A] | _ \<Rightarrow> []))"
proof -
  let ?ws = "take 101 (concat (replicate 34 words))"
  from process_run_run[OF assms(1)] have r: "run tr (prog pr)" and e: "penv pr = env"
    by simp_all
  from r have I: "inv tr (prog pr)" by (rule run_inv)
  note f = final_output[OF r assms(2)]
  have ws: "?ws = cycle 101" by (simp add: cycle_101)
  from f(3) have out: "stdout (prog pr) = concat (map (\<lambda>w. w @ [CHR 0x0A]) ?ws)"
    by (simp add: all_printed_explicit)
  have "\<forall>w\<in>set ?ws. CHR 0x0A \<notin> set w"
    using set_cycle[of 101] words_no_newline unfolding ws by blast
  then have l: "lines_of (stdout (prog pr)) = ?ws" unfolding out by (rule lines_of_concat)
  have len: "length (lines_of (stdout (prog pr))) = 101"
    unfolding l ws by (simp add: length_cycle)
  have nth: "\<forall>k<101. lines_of (stdout (prog pr)) ! k = words ! (k mod 3)"
    unfolding l ws by (simp add: nth_cycle)
  from f(2) have p: "printed tr = lines_of (stdout (prog pr))" unfolding l ws .
  from I inv_exited(1)[OF I assms(2)] have m: "mi (mainr (prog pr)) = 101"
    by (simp add: inv_def main_inv_def)
  have any: "process_run env' tr (pr\<lparr>penv := env'\<rparr>)" for env'
  proof -
    have eq: "pr\<lparr>penv := env'\<rparr> = \<lparr>penv = env', prog = prog pr\<rparr>" by (cases pr) simp
    show ?thesis unfolding eq using r by (rule run_process_run)
  qed
  from out l len nth p m e any inv_quiet(1)[OF I] inv_exited(1)[OF I assms(2)] process_step_frame
  show ?thesis by blast
qed

theorem C6_console_output_and_exit_witness:
  "process_run plain_env late_exit_trace \<lparr>penv = plain_env, prog = late_exit_state\<rparr> \<and>
   status (prog \<lparr>penv = plain_env, prog = late_exit_state\<rparr>) = Exited \<and>
   stdout (prog \<lparr>penv = plain_env, prog = late_exit_state\<rparr>) =
     concat (map (\<lambda>w. w @ [CHR 0x0A]) (take 101 (concat (replicate 34 words)))) \<and>
   lines_of (stdout (prog \<lparr>penv = plain_env, prog = late_exit_state\<rparr>)) =
     take 101 (concat (replicate 34 words)) \<and>
   length (lines_of (stdout (prog \<lparr>penv = plain_env, prog = late_exit_state\<rparr>))) = 101 \<and>
   lines_of (stdout (prog \<lparr>penv = plain_env, prog = late_exit_state\<rparr>)) ! 100 = words ! (100 mod 3) \<and>
   printed late_exit_trace = lines_of (stdout (prog \<lparr>penv = plain_env, prog = late_exit_state\<rparr>)) \<and>
   Panic \<notin> set late_exit_trace \<and>
   mi (mainr (prog \<lparr>penv = plain_env, prog = late_exit_state\<rparr>)) = 101 \<and>
   plain_env \<noteq> other_env \<and>
   process_run other_env late_exit_trace
     (\<lparr>penv = plain_env, prog = late_exit_state\<rparr>\<lparr>penv := other_env\<rparr>)"
proof -
  let ?pr = "\<lparr>penv = plain_env, prog = late_exit_state\<rparr>"
  have r: "process_run plain_env late_exit_trace ?pr"
    using run_late_exit by (rule run_process_run)
  have x: "status (prog ?pr) = Exited" using status_late by simp
  note t = C6_console_output_and_exit[OF r x]
  from t have "\<forall>k<101. lines_of (stdout (prog ?pr)) ! k = words ! (k mod 3)" by blast
  then have n: "lines_of (stdout (prog ?pr)) ! 100 = words ! (100 mod 3)" by simp
  have d: "plain_env \<noteq> other_env" by (simp add: plain_env_def other_env_def)
  from t have o: "process_run other_env late_exit_trace (?pr\<lparr>penv := other_env\<rparr>)" by blast
  from t r x n d o show ?thesis by blast
qed

text \<open>
  Claim C7. No operation of the program fails: in every execution, under every scheduling,
  the program never reaches the panicked status and no panic event occurs; whenever the
  emitter is at its \<open>select\<close> the index \<open>i\<close> is within the bounds of \<open>words\<close>; the done
  channel is closed at most once; the word channel is never closed, so that no send on a
  closed channel and no receive from the closed word channel occurs; and no step that the
  program can take next is a panic.
\<close>

theorem C7_no_operation_fails:
  assumes "run tr s"
  shows "status s \<noteq> Panicked \<and> Panic \<notin> set tr \<and>
         (\<forall>p. emitter s = Some p \<and> epc p = E_select \<longrightarrow> 0 \<le> ei p \<and> nat (ei p) < length words) \<and>
         length (filter (\<lambda>e. e = Closed) tr) \<le> 1 \<and>
         \<not> wordClosed s \<and> ClosedRecvWord \<notin> set tr \<and> ClosedRecvDone \<notin> set tr \<and>
         (\<forall>t. (Panic, t) \<notin> set (succs s))"
proof -
  from assms have I: "inv tr s" by (rule run_inv)
  have "(Panic, t) \<notin> set (succs s)" for t
  proof
    assume "(Panic, t) \<in> set (succs s)"
    then have "inv (tr @ [Panic]) t" using I by (simp add: inv_step)
    then show False by (simp add: inv_def)
  qed
  moreover have "\<forall>p. emitter s = Some p \<and> epc p = E_select \<longrightarrow>
      0 \<le> ei p \<and> nat (ei p) < length words"
    using inv_select_index[OF I] by (simp add: length_words)
  moreover have "status s \<noteq> Panicked"
    using inv_status[OF I] by simp
  moreover have "length (filter (\<lambda>e. e = Closed) tr) \<le> 1"
    using inv_quiet(5)[OF I] by simp
  ultimately show ?thesis using inv_quiet(1-4)[OF I] by blast
qed

theorem C7_no_operation_fails_witness:
  "run send_trace send_state \<and>
   emitter send_state = Some \<lparr>epc = E_select, ei = 2\<rparr> \<and>
   status send_state \<noteq> Panicked \<and> Panic \<notin> set send_trace \<and>
   0 \<le> ei \<lparr>epc = E_select, ei = 2\<rparr> \<and> nat (ei \<lparr>epc = E_select, ei = 2\<rparr>) < length words \<and>
   length (filter (\<lambda>e. e = Closed) send_trace) \<le> 1 \<and>
   \<not> wordClosed send_state \<and> ClosedRecvWord \<notin> set send_trace \<and>
   ClosedRecvDone \<notin> set send_trace \<and>
   (\<forall>t. (Panic, t) \<notin> set (succs send_state))"
proof -
  note t = C7_no_operation_fails [OF run_send]
  have e: "emitter send_state = Some \<lparr>epc = E_select, ei = 2\<rparr>"
    by (simp add: send_state_def st_def)
  have "epc \<lparr>epc = E_select, ei = 2\<rparr> = E_select" by simp
  with t e have "0 \<le> ei \<lparr>epc = E_select, ei = 2\<rparr> \<and>
      nat (ei \<lparr>epc = E_select, ei = 2\<rparr>) < length words"
    by blast
  with t e run_send show ?thesis by blast
qed

text \<open>
  Claim C9. The output does not depend on the scheduling: any two executions that have
  run to their end have the same console contents, the same sequence of printed words and
  the same sequence of received words, of 101 lines.
\<close>

theorem C9_output_deterministic:
  assumes "run tr s" and "status s = Exited" and "run tr' s'" and "status s' = Exited"
  shows "stdout s = stdout s' \<and> printed tr = printed tr' \<and> received tr = received tr' \<and>
         length (printed tr) = 101 \<and>
         length (filter (\<lambda>c. c = CHR 0x0A) (stdout s)) = 101"
proof -
  note f = final_output[OF assms(1,2)] and g = final_output[OF assms(3,4)]
  from f g show ?thesis by (simp add: length_cycle all_printed_lines)
qed

theorem C9_output_deterministic_witness:
  "run early_exit_trace early_exit_state \<and> status early_exit_state = Exited \<and>
   run late_exit_trace late_exit_state \<and> status late_exit_state = Exited \<and>
   early_exit_trace \<noteq> late_exit_trace \<and> early_exit_state \<noteq> late_exit_state \<and>
   stdout early_exit_state = stdout late_exit_state \<and>
   printed early_exit_trace = printed late_exit_trace \<and>
   length (printed early_exit_trace) = 101"
proof -
  have "early_exit_trace \<noteq> late_exit_trace"
    by (simp add: early_exit_trace_def late_exit_trace_def)
  moreover have "early_exit_state \<noteq> late_exit_state"
    by (simp add: early_exit_state_def late_exit_state_def st_def)
  ultimately show ?thesis
    using C9_output_deterministic[OF run_early_exit status_early run_late_exit status_late]
      run_early_exit status_early run_late_exit status_late
    by blast
qed

text \<open>
  Claim C10. The emitter taken alone, in an environment that may receive words and may
  send a stop signal with either boolean at any time: the emitter is beyond its loop
  (at the close, at the return or returned) exactly when a stop signal was delivered to
  it. As long as none was delivered it has not returned and has not panicked, and it can
  take a further step that is not the receipt of a stop signal; there are executions of
  every length without a stop signal. The state after the done branch is the same for
  \<open>true\<close> and \<open>false\<close>: the received value is never inspected.
\<close>

theorem C10_emit_leaves_only_on_stop:
  assumes "emit_run as p"
  shows "(epc p \<in> {E_close, E_return, E_done} \<longleftrightarrow> list_ex is_stop as) \<and>
         (\<not> list_ex is_stop as \<longrightarrow>
            emit_op p \<noteq> E_Halt \<and> emit_op p \<noteq> E_PanicIndex \<and>
            (\<exists>a q. (a, q) \<in> set (emit_acts p) \<and> \<not> is_stop a)) \<and>
         (\<forall>w p' k. emit_op p = E_Select w p' k \<longrightarrow> k True = k False) \<and>
         (\<forall>n. \<exists>as' p'. emit_run as' p' \<and> length as' = n \<and> \<not> list_ex is_stop as')"
proof -
  from assms have I: "solo_inv as p" by (rule emit_run_inv)
  then have "epc p \<in> {E_close, E_return, E_done} \<longleftrightarrow> list_ex is_stop as"
    by (cases "epc p") (simp_all add: solo_inv_def)
  moreover have "emit_op p \<noteq> E_Halt \<and> emit_op p \<noteq> E_PanicIndex \<and>
            (\<exists>a q. (a, q) \<in> set (emit_acts p) \<and> \<not> is_stop a)" if n: "\<not> list_ex is_stop as"
  proof -
    from I n have "emit_op p \<noteq> E_Halt \<and> emit_op p \<noteq> E_PanicIndex"
      by (cases "epc p") (simp_all add: solo_inv_def emit_op_def length_words)
    with solo_continue[OF I n] show ?thesis by blast
  qed
  moreover have "\<forall>w p' k. emit_op p = E_Select w p' k \<longrightarrow> k True = k False"
    using emit_select_const by blast
  ultimately show ?thesis using solo_forever by blast
qed

theorem C10_emit_leaves_only_on_stop_witness:
  "emit_run [A_Local] \<lparr>epc = E_select, ei = 0\<rparr> \<and>
   epc \<lparr>epc = E_select, ei = 0\<rparr> \<notin> {E_close, E_return, E_done} \<and>
   \<not> list_ex is_stop [A_Local] \<and>
   emit_op \<lparr>epc = E_select, ei = 0\<rparr> =
     E_Select ''feed'' \<lparr>epc = E_incr, ei = 0\<rparr> (\<lambda>b. \<lparr>epc = E_close, ei = 0\<rparr>) \<and>
   emit_op \<lparr>epc = E_select, ei = 0\<rparr> \<noteq> E_Halt \<and>
   emit_op \<lparr>epc = E_select, ei = 0\<rparr> \<noteq> E_PanicIndex \<and>
   (\<exists>a q. (a, q) \<in> set (emit_acts \<lparr>epc = E_select, ei = 0\<rparr>) \<and> \<not> is_stop a) \<and>
   (\<lambda>b::bool. \<lparr>epc = E_close, ei = (0::int)\<rparr>) True = (\<lambda>b. \<lparr>epc = E_close, ei = 0\<rparr>) False"
proof -
  have "(A_Local, \<lparr>epc = E_select, ei = 0\<rparr>) \<in> set (emit_acts emit_init)"
    by (simp add: emit_acts_def emit_op_def emit_init_def)
  with emit_run_init have "emit_run ([] @ [A_Local]) \<lparr>epc = E_select, ei = 0\<rparr>"
    by (rule emit_run_step)
  then have r: "emit_run [A_Local] \<lparr>epc = E_select, ei = 0\<rparr>" by simp
  have n: "\<not> list_ex is_stop [A_Local]" by simp
  have o: "emit_op \<lparr>epc = E_select, ei = 0\<rparr> =
     E_Select ''feed'' \<lparr>epc = E_incr, ei = 0\<rparr> (\<lambda>b. \<lparr>epc = E_close, ei = 0\<rparr>)"
    by (simp add: emit_op_def words_def)
  note t = C10_emit_leaves_only_on_stop[OF r]
  from t n have "epc \<lparr>epc = E_select, ei = 0\<rparr> \<notin> {E_close, E_return, E_done}" by blast
  moreover from t o
  have "(\<lambda>b::bool. \<lparr>epc = E_close, ei = (0::int)\<rparr>) True = (\<lambda>b. \<lparr>epc = E_close, ei = 0\<rparr>) False"
    by blast
  ultimately show ?thesis using t r n o by blast
qed

end
